theory Spec2Isabelle
  imports Complex_Main "HOL-Library.Word" "HOL-Library.Char_ord" "HOL-Library.List_Lexorder"
    "HOL-Library.AList"
begin

section \<open>The ledger: ExecutionRegistry\<close>

text \<open>
  The Solidity contract \<^verbatim>\<open>ExecutionRegistry\<close>. Its value types are machine words:
  \<^verbatim>\<open>address\<close> is 160 bits, \<^verbatim>\<open>bytes32\<close> and \<^verbatim>\<open>uint256\<close> are 256 bits. A Solidity
  mapping is total: a key never written reads as the all-zero struct.
\<close>

type_synonym address = "160 word"
type_synonym bytes32 = "256 word"
type_synonym uint256 = "256 word"

record Task =
  requester :: address
  specHash :: bytes32
  createdAt :: uint256

record Receipt =
  operator :: address
  artifactHash :: bytes32
  resultHash :: bytes32
  completedAt :: uint256

datatype event =
  TaskCreated uint256 address bytes32
| ReceiptSubmitted uint256 address bytes32 bytes32

text \<open>
  The storage of the contract (\<open>nextTaskId\<close>, \<open>tasks\<close>, \<open>receipts\<close>) together with the
  events it has emitted so far, oldest first.
\<close>

record ExecutionRegistry =
  nextTaskId :: uint256
  tasks :: "uint256 \<Rightarrow> Task"
  receipts :: "uint256 \<Rightarrow> Receipt"
  emitted :: "event list"

text \<open>What a call sees of its transaction: \<^verbatim>\<open>msg.sender\<close>, \<^verbatim>\<open>block.timestamp\<close>, and the
  hash of the transaction, which the client reports back.\<close>

record env =
  msg_sender :: address
  block_timestamp :: uint256
  tx_hash :: bytes32

text \<open>
  A failed \<^verbatim>\<open>require\<close> reverts with its reason string. Each one carries the error kind
  the protocol gives it: a zero digest is a validation error, a missing task is
  not-found, a second receipt is a conflict. \<open>Panic\<close> is the revert of Solidity 0.8
  checked arithmetic, with its panic code. The others are the exceptions of the
  JavaScript side: an argument the ethers library refuses, a file-system error, the
  \<^verbatim>\<open>RangeError\<close> of the language, a failed upload to the storage network, and a failed
  benchmark run.
\<close>

datatype error =
  ValidationError string
| NotFoundError string
| ConflictError string
| Panic nat
| InvalidArgument string
| IOError string
| RangeError string
| StorageFailure string
| ExecutionFailure string

definition genesis :: ExecutionRegistry where
  "genesis =
     \<lparr>nextTaskId = 0,
      tasks = (\<lambda>_. \<lparr>requester = 0, specHash = 0, createdAt = 0\<rparr>),
      receipts = (\<lambda>_. \<lparr>operator = 0, artifactHash = 0, resultHash = 0, completedAt = 0\<rparr>),
      emitted = []\<rparr>"

text \<open>
  \<^verbatim>\<open>createTask\<close>: the \<^verbatim>\<open>require\<close> on the digest, then \<^verbatim>\<open>nextTaskId++\<close> (checked: it
  reverts with panic code 0x11 when the counter is at its maximum), the store and the
  event. A revert returns no state: the caller keeps the one it had.
\<close>

definition createTask ::
  "env \<Rightarrow> bytes32 \<Rightarrow> ExecutionRegistry \<Rightarrow> error + (uint256 \<times> ExecutionRegistry)" where
  "createTask e h s =
     (if h = 0 then Inl (ValidationError ''Spec hash cannot be zero'')
      else if nextTaskId s = - 1 then Inl (Panic 17)
      else
        let taskId = nextTaskId s in
        Inr (taskId,
             s\<lparr>nextTaskId := taskId + 1,
               tasks := (tasks s)
                 (taskId := \<lparr>requester = msg_sender e, specHash = h,
                             createdAt = block_timestamp e\<rparr>),
               emitted := emitted s @ [TaskCreated taskId (msg_sender e) h]\<rparr>))"

text \<open>\<^verbatim>\<open>submitReceipt\<close>: four \<^verbatim>\<open>require\<close>s in the order of the source, then the store.\<close>

definition submitReceipt ::
  "env \<Rightarrow> uint256 \<Rightarrow> bytes32 \<Rightarrow> bytes32 \<Rightarrow> ExecutionRegistry \<Rightarrow> error + ExecutionRegistry" where
  "submitReceipt e taskId a r s =
     (if requester (tasks s taskId) = 0 then Inl (NotFoundError ''Task does not exist'')
      else if operator (receipts s taskId) \<noteq> 0
        then Inl (ConflictError ''Receipt already submitted'')
      else if a = 0 then Inl (ValidationError ''Artifact hash cannot be zero'')
      else if r = 0 then Inl (ValidationError ''Result hash cannot be zero'')
      else
        Inr (s\<lparr>receipts := (receipts s)
                 (taskId := \<lparr>operator = msg_sender e, artifactHash = a, resultHash = r,
                             completedAt = block_timestamp e\<rparr>),
               emitted := emitted s @ [ReceiptSubmitted taskId (msg_sender e) a r]\<rparr>))"


subsection \<open>Transactions and histories\<close>

text \<open>
  The contract has two entry points. A transaction that reverts leaves the storage as it
  was. A history is a list of transactions, run in order from a starting state.
\<close>

datatype call =
  CreateTask env bytes32
| SubmitReceipt env uint256 bytes32 bytes32

fun caller :: "call \<Rightarrow> address" where
  "caller (CreateTask e h) = msg_sender e"
| "caller (SubmitReceipt e t a r) = msg_sender e"

fun exec :: "call \<Rightarrow> ExecutionRegistry \<Rightarrow> ExecutionRegistry" where
  "exec (CreateTask e h) s = (case createTask e h s of Inl _ \<Rightarrow> s | Inr (_, s') \<Rightarrow> s')"
| "exec (SubmitReceipt e t a r) s =
     (case submitReceipt e t a r s of Inl _ \<Rightarrow> s | Inr s' \<Rightarrow> s')"

fun run :: "call list \<Rightarrow> ExecutionRegistry \<Rightarrow> ExecutionRegistry" where
  "run [] s = s"
| "run (c # cs) s = run cs (exec c s)"

text \<open>
  What a history did, read off the results of its calls and not off the storage: the ids
  its successful \<open>createTask\<close> calls returned, in order, and whether some
  \<open>submitReceipt\<close> for a given id succeeded.
\<close>

fun created_ids :: "call list \<Rightarrow> ExecutionRegistry \<Rightarrow> uint256 list" where
  "created_ids [] s = []"
| "created_ids (CreateTask e h # cs) s =
     (case createTask e h s of
        Inl _ \<Rightarrow> created_ids cs s
      | Inr (taskId, s') \<Rightarrow> taskId # created_ids cs s')"
| "created_ids (c # cs) s = created_ids cs (exec c s)"

fun receipt_submitted :: "call list \<Rightarrow> ExecutionRegistry \<Rightarrow> uint256 \<Rightarrow> bool" where
  "receipt_submitted [] s taskId = False"
| "receipt_submitted (SubmitReceipt e t a r # cs) s taskId =
     (case submitReceipt e t a r s of
        Inl _ \<Rightarrow> receipt_submitted cs s taskId
      | Inr s' \<Rightarrow> t = taskId \<or> receipt_submitted cs s' taskId)"
| "receipt_submitted (c # cs) s taskId = receipt_submitted cs (exec c s) taskId"

subsection \<open>The registry client\<close>

text \<open>
  The JavaScript wrapper around the contract's views. \<^verbatim>\<open>getTask\<close> returns the struct as
  it is stored; \<^verbatim>\<open>getReceipt\<close> returns \<^verbatim>\<open>null\<close> (here \<open>None\<close>) when the stored operator is
  the zero address.
\<close>

definition getTask :: "ExecutionRegistry \<Rightarrow> uint256 \<Rightarrow> Task" where
  "getTask s taskId = tasks s taskId"

definition getReceipt :: "ExecutionRegistry \<Rightarrow> uint256 \<Rightarrow> Receipt option" where
  "getReceipt s taskId =
     (let receipt = receipts s taskId in
      if operator receipt = 0 then None else Some receipt)"

text \<open>Two transaction contexts with different senders, used in the examples below.\<close>

definition alice :: env where
  "alice = \<lparr>msg_sender = 1, block_timestamp = 1700000000, tx_hash = 161\<rparr>"

definition bob :: env where
  "bob = \<lparr>msg_sender = 2, block_timestamp = 1700000060, tx_hash = 162\<rparr>"

section \<open>Hashing\<close>

subsection \<open>Bytes, hex strings and digests\<close>

text \<open>
  A \<^verbatim>\<open>Buffer\<close> or \<^verbatim>\<open>Uint8Array\<close> is a list of bytes. Text is a \<open>string\<close>, whose characters
  are the code units of its UTF-8 encoding, so \<^verbatim>\<open>toUtf8Bytes\<close> maps character to byte.
\<close>

type_synonym bytes = "8 word list"

definition toUtf8Bytes :: "string \<Rightarrow> bytes" where
  "toUtf8Bytes s = map (\<lambda>c. word_of_nat (of_char c)) s"

text \<open>
  Hex strings as ethers writes and reads them: \<^verbatim>\<open>hexlify\<close> gives \<^verbatim>\<open>0x\<close> and two lower-case
  digits per byte; \<^verbatim>\<open>getBytes\<close> accepts \<^verbatim>\<open>0x\<close> followed by pairs of hex digits of either
  case and throws on anything else.
\<close>

definition hexDigit :: "nat \<Rightarrow> char" where
  "hexDigit n = (if n < 10 then char_of (48 + n) else char_of (87 + n))"

definition hexByte :: "8 word \<Rightarrow> string" where
  "hexByte b = [hexDigit (unat b div 16), hexDigit (unat b mod 16)]"

definition hexlify :: "bytes \<Rightarrow> string" where
  "hexlify bs = ''0x'' @ concat (map hexByte bs)"

definition hexValue :: "char \<Rightarrow> nat option" where
  "hexValue c =
     (let k = (of_char c :: nat) in
      if 48 \<le> k \<and> k \<le> 57 then Some (k - 48)
      else if 97 \<le> k \<and> k \<le> 102 then Some (k - 87)
      else if 65 \<le> k \<and> k \<le> 70 then Some (k - 55)
      else None)"

fun parseHex :: "string \<Rightarrow> bytes option" where
  "parseHex [] = Some []"
| "parseHex [c] = None"
| "parseHex (c # d # cs) =
     (case hexValue c of
        None \<Rightarrow> None
      | Some h \<Rightarrow>
          (case hexValue d of
             None \<Rightarrow> None
           | Some l \<Rightarrow>
               (case parseHex cs of
                  None \<Rightarrow> None
                | Some bs \<Rightarrow> Some (word_of_nat (16 * h + l) # bs))))"

definition getBytes :: "string \<Rightarrow> error + bytes" where
  "getBytes s =
     (case s of
        c0 # c1 # cs \<Rightarrow>
          if c0 = CHR ''0'' \<and> c1 = CHR ''x'' then
            (case parseHex cs of
               None \<Rightarrow> Inl (InvalidArgument ''invalid BytesLike value'')
             | Some bs \<Rightarrow> Inr bs)
          else Inl (InvalidArgument ''invalid BytesLike value'')
      | _ \<Rightarrow> Inl (InvalidArgument ''invalid BytesLike value''))"

text \<open>A 32-byte digest is a 256-bit word, most significant byte first.\<close>

fun bytes_be :: "nat \<Rightarrow> nat \<Rightarrow> bytes" where
  "bytes_be 0 n = []"
| "bytes_be (Suc k) n = bytes_be k (n div 256) @ [word_of_nat (n mod 256)]"

definition nat_of_bytes :: "bytes \<Rightarrow> nat" where
  "nat_of_bytes bs = foldl (\<lambda>acc b. 256 * acc + unat b) 0 bs"

definition bytes_of_digest :: "bytes32 \<Rightarrow> bytes" where
  "bytes_of_digest w = bytes_be 32 (unat w)"

definition digest_of_bytes :: "bytes \<Rightarrow> bytes32" where
  "digest_of_bytes bs = word_of_nat (nat_of_bytes bs)"

text \<open>
  The hex string of a digest, and the way back: what the ABI encoder does to a hex string
  passed for a \<^verbatim>\<open>bytes32\<close> argument (it must hold exactly 32 bytes).
\<close>

definition hexDigest :: "bytes32 \<Rightarrow> string" where
  "hexDigest w = hexlify (bytes_of_digest w)"

definition toBytes32 :: "string \<Rightarrow> error + bytes32" where
  "toBytes32 s =
     (case getBytes s of
        Inl err \<Rightarrow> Inl err
      | Inr bs \<Rightarrow>
          if length bs = 32 then Inr (digest_of_bytes bs)
          else Inl (InvalidArgument ''incorrect data length''))"

text \<open>
  \<^verbatim>\<open>ethers.keccak256\<close> takes a \<^verbatim>\<open>BytesLike\<close>, a byte array or a hex string, and returns the
  hex string of the digest. The Keccak-256 function itself is not part of this code
  base: it is the parameter \<open>K\<close> of everything that hashes.
\<close>

datatype BytesLike = Buffer bytes | HexString string

definition keccak256 :: "(bytes \<Rightarrow> bytes32) \<Rightarrow> BytesLike \<Rightarrow> error + string" where
  "keccak256 K data =
     (case data of
        Buffer bs \<Rightarrow> Inr (hexDigest (K bs))
      | HexString s \<Rightarrow>
          (case getBytes s of
             Inl err \<Rightarrow> Inl err
           | Inr bs \<Rightarrow> Inr (hexDigest (K bs))))"

subsection \<open>The artifact directory\<close>

text \<open>
  A JavaScript string is a sequence of UTF-16 code units, and the default \<^verbatim>\<open>sort\<close>
  compares strings code unit by code unit, a proper prefix coming first. File names are
  kept as such sequences, ordered lexicographically by the value of the code units.
  \<open>codeUnits\<close> gives the code units of a string of ASCII characters, one for each.
\<close>

type_synonym jsstring = "16 word list"

definition codeUnits :: "string \<Rightarrow> jsstring" where
  "codeUnits s = map (\<lambda>c. word_of_nat (of_char c)) s"

text \<open>
  A directory is the list of its entries in the order \<^verbatim>\<open>readdir\<close> reports them, each a
  regular file with its content or something that is not a file. The file system maps
  the path of a directory to its entries.
\<close>

datatype entry = RegularFile bytes | Directory

type_synonym folder = "(jsstring \<times> entry) list"

type_synonym filesystem = "string \<Rightarrow> folder option"

definition readdir :: "folder \<Rightarrow> jsstring list" where
  "readdir dir = map fst dir"

text \<open>
  \<^verbatim>\<open>hashArtifactFolder\<close>. The loop over the sorted names appends, for every regular file,
  the hex digits of its content hash (the \<^verbatim>\<open>0x\<close> sliced off) to \<^verbatim>\<open>combinedHash\<close>; the
  result is the hash of that hex string read back as bytes, or of \<^verbatim>\<open>0x\<close> when the string
  is empty. \<^verbatim>\<open>files.sort()\<close> is the default sort of JavaScript, by code units: the
  order of \<open>jsstring\<close>.
\<close>

fun hashFiles ::
  "(bytes \<Rightarrow> bytes32) \<Rightarrow> folder \<Rightarrow> jsstring list \<Rightarrow> string \<Rightarrow> error + string" where
  "hashFiles K dir [] combinedHash = Inr combinedHash"
| "hashFiles K dir (file # files) combinedHash =
     (case map_of dir file of
        None \<Rightarrow> Inl (IOError ''ENOENT'')
      | Some Directory \<Rightarrow> hashFiles K dir files combinedHash
      | Some (RegularFile content) \<Rightarrow>
          (case keccak256 K (Buffer content) of
             Inl err \<Rightarrow> Inl err
           | Inr fileHash \<Rightarrow> hashFiles K dir files (combinedHash @ drop 2 fileHash)))"

definition hashArtifactFolder ::
  "(bytes \<Rightarrow> bytes32) \<Rightarrow> filesystem \<Rightarrow> string \<Rightarrow> error + string" where
  "hashArtifactFolder K fs folderPath =
     (case fs folderPath of
        None \<Rightarrow> Inl (IOError ''ENOENT'')
      | Some dir \<Rightarrow>
          let files = readdir dir;
              sortedFiles = sort files
          in (case hashFiles K dir sortedFiles [] of
                Inl err \<Rightarrow> Inl err
              | Inr combinedHash \<Rightarrow>
                  if combinedHash \<noteq> [] then keccak256 K (HexString (''0x'' @ combinedHash))
                  else keccak256 K (HexString ''0x'')))"

text \<open>
  The artifact hash as the specification words it: list the directory, sort the names
  lexicographically, content-hash each regular file, concatenate the hashes in that
  order, hash the concatenation.
\<close>

definition digestsOf :: "(bytes \<Rightarrow> bytes32) \<Rightarrow> folder \<Rightarrow> jsstring list \<Rightarrow> bytes32 list" where
  "digestsOf K dir names =
     concat (map (\<lambda>name. case map_of dir name of
                            Some (RegularFile content) \<Rightarrow> [K content]
                          | _ \<Rightarrow> []) names)"

definition fileDigests :: "(bytes \<Rightarrow> bytes32) \<Rightarrow> folder \<Rightarrow> bytes32 list" where
  "fileDigests K dir = digestsOf K dir (sort (readdir dir))"

definition artifactHash_spec :: "(bytes \<Rightarrow> bytes32) \<Rightarrow> folder \<Rightarrow> bytes32" where
  "artifactHash_spec K dir = K (concat (map bytes_of_digest (fileDigests K dir)))"

text \<open>
  A stand-in for the hash function in the examples, and an artifact directory with two
  files and a subdirectory, listed in two different orders. A third directory has two
  files whose names are the single characters U+FF5E and U+1F600, the latter the two
  code units D83D and DE00: JavaScript sorts it first.
\<close>

definition toyHash :: "bytes \<Rightarrow> bytes32" where
  "toyHash bs = word_of_nat (length bs) + 1"

definition exampleFolder :: folder where
  "exampleFolder =
     [(codeUnits ''result.json'', RegularFile [123, 125]),
      (codeUnits ''tmp'', Directory),
      (codeUnits ''execution.log'', RegularFile [10])]"

definition exampleFolder' :: folder where
  "exampleFolder' =
     [(codeUnits ''execution.log'', RegularFile [10]),
      (codeUnits ''result.json'', RegularFile [123, 125]),
      (codeUnits ''tmp'', Directory)]"

definition unicodeFolder :: folder where
  "unicodeFolder =
     [([0xFF5E], RegularFile [1]),
      ([0xD83D, 0xDE00], RegularFile [2, 2])]"

definition exampleFs :: filesystem where
  "exampleFs = (\<lambda>p. if p = ''artifacts/task-0'' then Some exampleFolder else None)"

subsection \<open>Hashing a task specification\<close>

text \<open>
  JSON values. Numbers are the integers, which JavaScript prints in decimal below
  \<open>10^21\<close>. An object is the list of its properties in insertion order, with distinct
  keys.
\<close>

datatype json =
  JNull
| JBool bool
| JNumber int
| JString string
| JArray "json list"
| JObject "(string \<times> json) list"

fun showNat :: "nat \<Rightarrow> string" where
  "showNat n = (if n < 10 then [char_of (48 + n)] else showNat (n div 10) @ [char_of (48 + n mod 10)])"

definition showInt :: "int \<Rightarrow> string" where
  "showInt i = (if i < 0 then CHR ''-'' # showNat (nat (- i)) else showNat (nat i))"

text \<open>
  \<^verbatim>\<open>QuoteJSONString\<close>: the two-character escapes, \<^verbatim>\<open>\u00XX\<close> for the other control
  characters, every other character as it is, between double quotes (character 0x22).
\<close>

definition escapeChar :: "char \<Rightarrow> string" where
  "escapeChar c =
     (let k = (of_char c :: nat) in
      if k = 8 then [CHR 0x5C, CHR ''b'']
      else if k = 9 then [CHR 0x5C, CHR ''t'']
      else if k = 10 then [CHR 0x5C, CHR ''n'']
      else if k = 12 then [CHR 0x5C, CHR ''f'']
      else if k = 13 then [CHR 0x5C, CHR ''r'']
      else if k = 34 then [CHR 0x5C, CHR 0x22]
      else if k = 92 then [CHR 0x5C, CHR 0x5C]
      else if k < 32 then [CHR 0x5C, CHR ''u'', CHR ''0'', CHR ''0'', hexDigit (k div 16), hexDigit (k mod 16)]
      else [c])"

definition quote :: "string \<Rightarrow> string" where
  "quote s = CHR 0x22 # concat (map escapeChar s) @ [CHR 0x22]"

fun join :: "string \<Rightarrow> string list \<Rightarrow> string" where
  "join sep [] = []"
| "join sep [x] = x"
| "join sep (x # y # ys) = x @ sep @ join sep (y # ys)"

text \<open>
  \<^verbatim>\<open>JSON.stringify(value, replacer)\<close> with an array for \<^verbatim>\<open>replacer\<close> and no indentation.
  The array becomes the property list of the serialisation (duplicates dropped, first
  occurrence kept), and that list is used for every object at every depth: an object
  is written with exactly those of the listed keys that it has, in the order of the
  list. Array elements are all written.
\<close>

fun dedup :: "string list \<Rightarrow> string list" where
  "dedup [] = []"
| "dedup (k # ks) = k # dedup (filter (\<lambda>x. x \<noteq> k) ks)"

fun serialize :: "string list \<Rightarrow> json \<Rightarrow> string" where
  "serialize P JNull = ''null''"
| "serialize P (JBool b) = (if b then ''true'' else ''false'')"
| "serialize P (JNumber i) = showInt i"
| "serialize P (JString s) = quote s"
| "serialize P (JArray vs) = ''['' @ join '','' (map (serialize P) vs) @ '']''"
| "serialize P (JObject kvs) =
     (let members = map (\<lambda>(k, v). (k, quote k @ '':'' @ serialize P v)) kvs
      in ''{'' @
         join '','' (concat (map (\<lambda>p. case map_of members p of None \<Rightarrow> [] | Some m \<Rightarrow> [m]) P)) @
         ''}'')"

definition stringify :: "json \<Rightarrow> string list \<Rightarrow> string" where
  "stringify v replacer = serialize (dedup replacer) v"

text \<open>
  \<^verbatim>\<open>hashJSON\<close>: the keys of the object, sorted, are passed as the replacer array; the
  text is hashed as UTF-8.
\<close>

definition hashJSON :: "(bytes \<Rightarrow> bytes32) \<Rightarrow> (string \<times> json) list \<Rightarrow> error + string" where
  "hashJSON K obj =
     (let sortedJSON = stringify (JObject obj) (sort (map fst obj));
          encoded = toUtf8Bytes sortedJSON
      in keccak256 K (Buffer encoded))"

text \<open>The task specification the create route builds, and the object it is as JSON.\<close>

record BenchmarkConfig =
  cpuDurationMs :: int
  memorySizeMB :: int
  diskSizeMB :: int

record TaskSpec =
  spec_type :: string
  duration :: int
  config :: BenchmarkConfig
  spec_createdAt :: string

definition taskSpecObject :: "TaskSpec \<Rightarrow> (string \<times> json) list" where
  "taskSpecObject spec =
     [(''type'', JString (spec_type spec)),
      (''duration'', JNumber (duration spec)),
      (''config'', JObject
         [(''cpuDurationMs'', JNumber (cpuDurationMs (config spec))),
          (''memorySizeMB'', JNumber (memorySizeMB (config spec))),
          (''diskSizeMB'', JNumber (diskSizeMB (config spec)))]),
      (''createdAt'', JString (spec_createdAt spec))]"

text \<open>Two specifications that differ in \<open>memorySizeMB\<close> only.\<close>

definition spec100 :: TaskSpec where
  "spec100 =
     \<lparr>spec_type = ''SERVER_BENCHMARK'', duration = 30,
      config = \<lparr>cpuDurationMs = 10000, memorySizeMB = 100, diskSizeMB = 10\<rparr>,
      spec_createdAt = ''2024-01-01T00:00:00.000Z''\<rparr>"

definition spec200 :: TaskSpec where
  "spec200 =
     \<lparr>spec_type = ''SERVER_BENCHMARK'', duration = 30,
      config = \<lparr>cpuDurationMs = 10000, memorySizeMB = 200, diskSizeMB = 10\<rparr>,
      spec_createdAt = ''2024-01-01T00:00:00.000Z''\<rparr>"

section \<open>The benchmark\<close>

text \<open>
  JavaScript numbers are doubles. The counters and indices of the benchmark are
  non-negative integers, and a double holds every integer up to \<open>2^53\<close> exactly, with
  exact \<^verbatim>\<open>+\<close>, \<^verbatim>\<open>*\<close> and \<^verbatim>\<open>%\<close> as long as the results stay in that range: there the
  numbers of the source are the naturals of this model. The sum of the memory phase
  leaves that range, and its additions are rounded as a double rounds them.
\<close>

subsection \<open>The CPU phase\<close>

text \<open>
  \<^verbatim>\<open>isPrime\<close>: the three early returns, then the loop
  \<^verbatim>\<open>for (let i = 5; i * i <= n; i += 6)\<close> testing \<open>i\<close> and \<open>i + 2\<close>.
\<close>

function isPrime_loop :: "nat \<Rightarrow> nat \<Rightarrow> bool" where
  "isPrime_loop n i =
     (if i * i \<le> n then
        (if n mod i = 0 \<or> n mod (i + 2) = 0 then False else isPrime_loop n (i + 6))
      else True)"
  by pat_completeness auto
termination
proof (relation "measure (\<lambda>(n, i). n + 1 - i)")
  show "wf (measure (\<lambda>(n, i). n + 1 - i))" by simp
next
  fix n i :: nat
  assume sq: "i * i \<le> n"
  have "i \<le> i * i" by (cases i) simp_all
  from this sq have "i \<le> n" by (rule order_trans)
  then show "((n, i + 6), (n, i)) \<in> measure (\<lambda>(n, i). n + 1 - i)" by simp
qed

definition isPrime :: "nat \<Rightarrow> bool" where
  "isPrime n =
     (if n \<le> 1 then False
      else if n \<le> 3 then True
      else if n mod 2 = 0 \<or> n mod 3 = 0 then False
      else isPrime_loop n 5)"

text \<open>
  The loop of \<^verbatim>\<open>cpuTest\<close> runs while the clock says so. The clock is the list of the
  values that the successive calls of \<^verbatim>\<open>Date.now()\<close> return: one for \<^verbatim>\<open>startTime\<close>, then
  per iteration one for the loop test and one for \<^verbatim>\<open>now\<close> (which only decides whether a
  progress line is printed), and one for \<^verbatim>\<open>elapsed\<close> after the loop. A list that ends
  before the loop does describes a run that is still going: the result is \<open>None\<close>.
  The loop returns its variables \<open>num\<close>, \<open>iterations\<close> and \<open>primeCount\<close> as they are when
  it stops, and the rest of the clock.
  The rate \<^verbatim>\<open>opsPerSecond\<close>, a floating-point quotient of the wall clock, is left out of
  the result.
\<close>

record CpuResult =
  iterations :: nat
  primesFound :: nat
  durationMs :: int

fun cpuLoop ::
  "int \<Rightarrow> int \<Rightarrow> int list \<Rightarrow> nat \<Rightarrow> nat \<Rightarrow> nat \<Rightarrow>
   (nat \<times> nat \<times> nat \<times> int list) option" where
  "cpuLoop budget startTime [] num iters primeCount = None"
| "cpuLoop budget startTime [t] num iters primeCount =
     (if t - startTime < budget then None else Some (num, iters, primeCount, []))"
| "cpuLoop budget startTime (t # now # clock) num iters primeCount =
     (if t - startTime < budget then
        cpuLoop budget startTime clock (num + 1) (iters + 1)
          (if isPrime num then primeCount + 1 else primeCount)
      else Some (num, iters, primeCount, now # clock))"

definition cpuTest :: "int \<Rightarrow> int list \<Rightarrow> CpuResult option" where
  "cpuTest budget clock =
     (case clock of
        [] \<Rightarrow> None
      | startTime # clock1 \<Rightarrow>
          (case cpuLoop budget startTime clock1 2 0 0 of
             None \<Rightarrow> None
           | Some (num, iters, primeCount, clock2) \<Rightarrow>
               (case clock2 of
                  [] \<Rightarrow> None
                | endTime # _ \<Rightarrow>
                    Some \<lparr>iterations = iters, primesFound = primeCount,
                          durationMs = endTime - startTime\<rparr>)))"

text \<open>Primality as the specification means it, by divisors.\<close>

definition prime_nat :: "nat \<Rightarrow> bool" where
  "prime_nat n \<longleftrightarrow> 1 < n \<and> (\<forall>d\<in>{2..<n}. \<not> d dvd n)"

subsection \<open>The memory phase\<close>

text \<open>
  The size \<^verbatim>\<open>sizeMB\<close> is whatever number the configuration holds: it may be negative or
  fractional. A finite double is a rational number, and multiplying it by 1024 twice and
  dividing it by 8 is exact, so \<^verbatim>\<open>arraySize\<close> is the rational \<open>sizeMB * 1024 * 1024 / 8\<close>.
  \<^verbatim>\<open>new Array(arraySize)\<close> throws a \<^verbatim>\<open>RangeError\<close> unless the length is an integer from
  \<open>0\<close> to \<open>2^32 - 1\<close>. The new array has holes; reading a hole or past the end yields
  \<^verbatim>\<open>undefined\<close>, and adding \<^verbatim>\<open>undefined\<close> gives \<^verbatim>\<open>NaN\<close>, which then stays: a hole and
  \<^verbatim>\<open>NaN\<close> are both \<open>None\<close>. Writing past the end extends the array. What the engine does
  when it runs out of memory is not modelled. The durations and throughputs of the
  result, wall-clock and floating-point values, are left out.
\<close>

definition isArrayLength :: "rat \<Rightarrow> bool" where
  "isArrayLength len \<longleftrightarrow> 0 \<le> len \<and> len \<le> 4294967295 \<and> of_int \<lfloor>len\<rfloor> = len"

definition js_get :: "nat option list \<Rightarrow> nat \<Rightarrow> nat option" where
  "js_get array i = (if i < length array then array ! i else None)"

definition js_set :: "nat option list \<Rightarrow> nat \<Rightarrow> nat \<Rightarrow> nat option list" where
  "js_set array i v =
     (if i < length array then array[i := Some v]
      else array @ replicate (i - length array) None @ [Some v])"

text \<open>
  The sum of two doubles is the exact sum rounded to the nearest double, a tie going to
  the one whose last significand bit is zero. A double has 53 significand bits: the
  doubles from \<open>2^(52+k)\<close> to \<open>2^(53+k)\<close> are the multiples of \<open>2^k\<close>, and \<open>ulp n\<close> is their
  spacing at \<open>n\<close>. \<open>toDouble n\<close> is the double nearest to the natural number \<open>n\<close> (the
  numbers met here are far below \<open>2^1024\<close>, where rounding would give \<^verbatim>\<open>Infinity\<close>), and
  \<open>jsAdd\<close> is \<^verbatim>\<open>+\<close> on values that are such a number, or \<^verbatim>\<open>undefined\<close> or \<^verbatim>\<open>NaN\<close>. The
  products \<^verbatim>\<open>i * 2\<close> and the counter \<^verbatim>\<open>i++\<close> stay below \<open>2^33\<close> and are exact.
\<close>

function ulp :: "nat \<Rightarrow> nat" where
  "ulp n = (if n < 9007199254740992 then 1 else 2 * ulp (n div 2))"
  by pat_completeness auto
termination
  by (relation "measure (\<lambda>n. n)") auto

definition toDouble :: "nat \<Rightarrow> nat" where
  "toDouble n =
     (let u = ulp n; q = n div u; r = n mod u in
      if 2 * r < u then q * u
      else if u < 2 * r then (q + 1) * u
      else if even q then q * u
      else (q + 1) * u)"

fun jsAdd :: "nat option \<Rightarrow> nat option \<Rightarrow> nat option" where
  "jsAdd (Some a) (Some b) = Some (toDouble (a + b))"
| "jsAdd a b = None"

record MemoryResult =
  allocatedMB :: rat
  checksum :: "nat option"

function writeLoop :: "nat \<Rightarrow> nat \<Rightarrow> nat option list \<Rightarrow> nat option list" where
  "writeLoop arraySize i array =
     (if i < arraySize then writeLoop arraySize (i + 1) (js_set array i (i * 2))
      else array)"
  by pat_completeness auto
termination
  by (relation "measure (\<lambda>(arraySize, i, array). arraySize - i)") auto

function readLoop :: "nat \<Rightarrow> nat \<Rightarrow> nat option list \<Rightarrow> nat option \<Rightarrow> nat option" where
  "readLoop arraySize i array sum_acc =
     (if i < arraySize then
        readLoop arraySize (i + 1) array (jsAdd sum_acc (js_get array i))
      else sum_acc)"
  by pat_completeness auto
termination
  by (relation "measure (\<lambda>(arraySize, i, array, sum_acc). arraySize - i)") auto

text \<open>
  \<^verbatim>\<open>memoryTest\<close>. The remainder \<^verbatim>\<open>sum % 1000000\<close> of a double is exact.
\<close>

definition memoryTest :: "rat \<Rightarrow> error + MemoryResult" where
  "memoryTest sizeMB =
     (let arraySize = (sizeMB * 1024 * 1024) / 8 in
      if isArrayLength arraySize then
        let n = nat \<lfloor>arraySize\<rfloor>;
            array = replicate n None;
            array = writeLoop n 0 array;
            sum_acc = readLoop n 0 array (Some 0)
        in Inr \<lparr>allocatedMB = sizeMB,
                checksum = map_option (\<lambda>s. s mod 1000000) sum_acc\<rparr>
      else Inl (RangeError ''Invalid array length''))"

section \<open>Artifacts, storage and the routes\<close>

subsection \<open>Files\<close>

text \<open>
  A file is addressed by the path of its directory and its name. Writing replaces the
  content of a file or adds it to the listing; the directory must exist. The names the
  artifact service writes are ASCII literals.
\<close>

definition writeFile :: "filesystem \<Rightarrow> string \<Rightarrow> jsstring \<Rightarrow> bytes \<Rightarrow> error + filesystem" where
  "writeFile fs dirPath name content =
     (case fs dirPath of
        None \<Rightarrow> Inl (IOError ''ENOENT'')
      | Some dir \<Rightarrow>
          (case map_of dir name of
             Some Directory \<Rightarrow> Inl (IOError ''EISDIR'')
           | _ \<Rightarrow> Inr (fs(dirPath \<mapsto> AList.update name (RegularFile content) dir))))"

definition readFile :: "filesystem \<Rightarrow> string \<Rightarrow> jsstring \<Rightarrow> error + bytes" where
  "readFile fs dirPath name =
     (case fs dirPath of
        None \<Rightarrow> Inl (IOError ''ENOENT'')
      | Some dir \<Rightarrow>
          (case map_of dir name of
             None \<Rightarrow> Inl (IOError ''ENOENT'')
           | Some Directory \<Rightarrow> Inl (IOError ''EISDIR'')
           | Some (RegularFile content) \<Rightarrow> Inr content))"

subsection \<open>The artifact folder\<close>

text \<open>
  The library functions the artifact service calls on values this model does not look
  into: \<^verbatim>\<open>JSON.stringify(_, null, 2)\<close> of the benchmark results, of the metrics built from
  them and of the receipt (task id, the two hashes, the URL, the creation time), and
  the MIME type looked up for a file name. The benchmark results are of any type \<open>'r\<close>.
\<close>

record 'r platform =
  resultJson :: "'r \<Rightarrow> string"
  metricsJson :: "'r \<Rightarrow> string"
  receiptJson :: "nat \<Rightarrow> string \<Rightarrow> string \<Rightarrow> string \<Rightarrow> string \<Rightarrow> string"
  mimeLookup :: "jsstring \<Rightarrow> string option"

text \<open>
  Task ids are non-negative integers, printed in decimal in the folder name (JavaScript
  prints a number in decimal digits up to \<open>10^21\<close>, far above the ids the ledger
  accepts from the backend). Paths are relative to the working directory of the process.
\<close>

definition artifactPathOf :: "nat \<Rightarrow> string" where
  "artifactPathOf taskId = ''artifacts/task-'' @ showNat taskId"

definition createArtifactFolder ::
  "'r platform \<Rightarrow> filesystem \<Rightarrow> nat \<Rightarrow> 'r \<Rightarrow> string list \<Rightarrow> error + (string \<times> filesystem)" where
  "createArtifactFolder pf fs taskId benchmarkResults logs =
     (let artifactPath = artifactPathOf taskId;
          fs0 = fs(artifactPath := None);
          fs1 = fs0(artifactPath \<mapsto> []);
          logContent = join [CHR 0x0A] logs @ [CHR 0x0A]
      in case writeFile fs1 artifactPath (codeUnits ''execution.log'') (toUtf8Bytes logContent) of
           Inl err \<Rightarrow> Inl err
         | Inr fs2 \<Rightarrow>
             (case writeFile fs2 artifactPath (codeUnits ''metrics.json'')
                     (toUtf8Bytes (metricsJson pf benchmarkResults)) of
                Inl err \<Rightarrow> Inl err
              | Inr fs3 \<Rightarrow>
                  (case writeFile fs3 artifactPath (codeUnits ''result.json'')
                          (toUtf8Bytes (resultJson pf benchmarkResults)) of
                     Inl err \<Rightarrow> Inl err
                   | Inr fs4 \<Rightarrow> Inr (artifactPath, fs4))))"

text \<open>The three files the folder holds once it is created, in the order they are written.\<close>

definition artifactFiles :: "'r platform \<Rightarrow> 'r \<Rightarrow> string list \<Rightarrow> folder" where
  "artifactFiles pf benchmarkResults logs =
     [(codeUnits ''execution.log'', RegularFile (toUtf8Bytes (join [CHR 0x0A] logs @ [CHR 0x0A]))),
      (codeUnits ''metrics.json'', RegularFile (toUtf8Bytes (metricsJson pf benchmarkResults))),
      (codeUnits ''result.json'', RegularFile (toUtf8Bytes (resultJson pf benchmarkResults)))]"

definition createReceipt ::
  "'r platform \<Rightarrow> filesystem \<Rightarrow> nat \<Rightarrow> string \<Rightarrow> string \<Rightarrow> string \<Rightarrow> string \<Rightarrow>
   error + filesystem" where
  "createReceipt pf fs taskId artifactHash_hex resultHash_hex artifactUrl now =
     (let artifactPath = artifactPathOf taskId
      in writeFile fs artifactPath (codeUnits ''receipt.json'')
           (toUtf8Bytes (receiptJson pf taskId artifactHash_hex resultHash_hex artifactUrl now)))"

subsection \<open>Upload to the storage network\<close>

text \<open>
  The storage client is outside this code base. What the upload code sees of it: each of
  its two calls per object either throws or returns a result code. The configuration
  holds three optional settings and the function that constructs the client, which may
  throw.
\<close>

record client =
  createObject :: "string \<Rightarrow> jsstring \<Rightarrow> bytes \<Rightarrow> string \<Rightarrow> error + int"
  uploadObject :: "string \<Rightarrow> jsstring \<Rightarrow> bytes \<Rightarrow> string \<Rightarrow> error + int"

record greenfieldConfig =
  bucket :: "string option"
  privateKey :: "string option"
  accountAddress :: "string option"
  getClient :: "error + client"

text \<open>JavaScript's \<^verbatim>\<open>!x\<close> for a setting: \<^verbatim>\<open>undefined\<close> and the empty string are falsy.\<close>

definition falsy :: "string option \<Rightarrow> bool" where
  "falsy x \<longleftrightarrow> x = None \<or> x = Some []"

definition valueOf :: "string option \<Rightarrow> string" where
  "valueOf x = (case x of None \<Rightarrow> [] | Some v \<Rightarrow> v)"

definition uploadFileToGreenfield ::
  "client \<Rightarrow> string \<Rightarrow> jsstring \<Rightarrow> bytes \<Rightarrow> string \<Rightarrow> error + unit" where
  "uploadFileToGreenfield c bucketName objectName fileBuffer contentType =
     (case createObject c bucketName objectName fileBuffer contentType of
        Inl err \<Rightarrow> Inl err
      | Inr code \<Rightarrow>
          if code \<noteq> 0 then Inl (StorageFailure ''Failed to create object on Greenfield'')
          else
            (case uploadObject c bucketName objectName fileBuffer contentType of
               Inl err \<Rightarrow> Inl err
             | Inr code' \<Rightarrow>
                 if code' \<noteq> 0
                 then Inl (StorageFailure ''Failed to upload object to Greenfield'')
                 else Inr ()))"

definition artifactUrlOf :: "nat \<Rightarrow> string" where
  "artifactUrlOf taskId =
     ''https://testnet.greenfieldscan.com/bucket/0x0000000000000000000000000000000000000000000000000000000000005863?tab=object&keyword=task-''
     @ showNat taskId"

definition mockUrlOf :: "nat \<Rightarrow> string" where
  "mockUrlOf taskId =
     ''https://testnet.greenfieldscan.com/bucket/0x0000000000000000000000000000000000000000000000000000000000005863?tab=object&keyword=task-''
     @ showNat taskId"

text \<open>The loop over the listing: what is not a file is skipped, the first failure ends it.\<close>

fun uploadFiles ::
  "client \<Rightarrow> string \<Rightarrow> (jsstring \<Rightarrow> string option) \<Rightarrow> folder \<Rightarrow> nat \<Rightarrow> jsstring list \<Rightarrow>
   error + unit" where
  "uploadFiles c bucketName lookup dir taskId [] = Inr ()"
| "uploadFiles c bucketName lookup dir taskId (fileName # files) =
     (case map_of dir fileName of
        None \<Rightarrow> Inl (IOError ''ENOENT'')
      | Some Directory \<Rightarrow> uploadFiles c bucketName lookup dir taskId files
      | Some (RegularFile fileBuffer) \<Rightarrow>
          let contentType =
                (case lookup fileName of None \<Rightarrow> ''application/octet-stream'' | Some t \<Rightarrow> t);
              objectName = codeUnits (''task-'' @ showNat taskId @ ''/'') @ fileName
          in (case uploadFileToGreenfield c bucketName objectName fileBuffer contentType of
                Inl err \<Rightarrow> Inl err
              | Inr _ \<Rightarrow> uploadFiles c bucketName lookup dir taskId files))"

text \<open>The body of the \<^verbatim>\<open>try\<close> block of \<^verbatim>\<open>uploadToGreenfield\<close>.\<close>

definition uploadAll ::
  "greenfieldConfig \<Rightarrow> (jsstring \<Rightarrow> string option) \<Rightarrow> filesystem \<Rightarrow> string \<Rightarrow> nat \<Rightarrow>
   error + unit" where
  "uploadAll cfg lookup fs folderPath taskId =
     (case getClient cfg of
        Inl err \<Rightarrow> Inl err
      | Inr c \<Rightarrow>
          (case fs folderPath of
             None \<Rightarrow> Inl (IOError ''ENOENT'')
           | Some dir \<Rightarrow>
               uploadFiles c (valueOf (bucket cfg)) lookup dir taskId (readdir dir)))"

definition uploadToGreenfield ::
  "greenfieldConfig \<Rightarrow> (jsstring \<Rightarrow> string option) \<Rightarrow> filesystem \<Rightarrow> string \<Rightarrow> nat \<Rightarrow> string" where
  "uploadToGreenfield cfg lookup fs folderPath taskId =
     (if falsy (bucket cfg) \<or> falsy (privateKey cfg) \<or> falsy (accountAddress cfg)
      then mockUrlOf taskId
      else
        (case uploadAll cfg lookup fs folderPath taskId of
           Inr _ \<Rightarrow> artifactUrlOf taskId
         | Inl err \<Rightarrow> mockUrlOf taskId))"

text \<open>
  The upload fails when a setting is missing or the \<^verbatim>\<open>try\<close> block throws.
\<close>

definition uploadFails ::
  "greenfieldConfig \<Rightarrow> (jsstring \<Rightarrow> string option) \<Rightarrow> filesystem \<Rightarrow> string \<Rightarrow> nat \<Rightarrow> bool" where
  "uploadFails cfg lookup fs folderPath taskId \<longleftrightarrow>
     falsy (bucket cfg) \<or> falsy (privateKey cfg) \<or> falsy (accountAddress cfg) \<or>
     (case uploadAll cfg lookup fs folderPath taskId of Inl err \<Rightarrow> True | Inr u \<Rightarrow> False)"

text \<open>
  \<^verbatim>\<open>processArtifacts\<close>: create the folder, upload it, hash the folder, hash
  \<^verbatim>\<open>result.json\<close>, then write \<^verbatim>\<open>receipt.json\<close>. It returns the path, the URL and the two hex
  digests, and the file system it leaves.
\<close>

definition processArtifacts ::
  "(bytes \<Rightarrow> bytes32) \<Rightarrow> 'r platform \<Rightarrow> greenfieldConfig \<Rightarrow> filesystem \<Rightarrow> nat \<Rightarrow> 'r \<Rightarrow>
   string list \<Rightarrow> string \<Rightarrow> error + ((string \<times> string \<times> string \<times> string) \<times> filesystem)" where
  "processArtifacts K pf cfg fs taskId benchmarkResults logs now =
     (case createArtifactFolder pf fs taskId benchmarkResults logs of
        Inl err \<Rightarrow> Inl err
      | Inr (artifactPath, fs1) \<Rightarrow>
          let artifactUrl = uploadToGreenfield cfg (mimeLookup pf) fs1 artifactPath taskId in
          (case hashArtifactFolder K fs1 artifactPath of
             Inl err \<Rightarrow> Inl err
           | Inr artifactHash_hex \<Rightarrow>
               (case readFile fs1 artifactPath (codeUnits ''result.json'') of
                  Inl err \<Rightarrow> Inl err
                | Inr resultContent \<Rightarrow>
                    (case keccak256 K (Buffer resultContent) of
                       Inl err \<Rightarrow> Inl err
                     | Inr resultHash_hex \<Rightarrow>
                         (case createReceipt pf fs1 taskId artifactHash_hex resultHash_hex
                                 artifactUrl now of
                            Inl err \<Rightarrow> Inl err
                          | Inr fs2 \<Rightarrow>
                              Inr ((artifactPath, artifactUrl, artifactHash_hex,
                                    resultHash_hex), fs2))))))"

subsection \<open>Submitting the receipt from the backend\<close>

text \<open>
  The contract call made through ethers. A JavaScript number is accepted for a
  \<^verbatim>\<open>uint256\<close> argument only if it is a safe integer and not negative; a hex string for a
  \<^verbatim>\<open>bytes32\<close> argument only if it holds 32 bytes. The call returns the hash of its
  transaction.
\<close>

definition toUint256 :: "int \<Rightarrow> error + uint256" where
  "toUint256 n =
     (if n < - 9007199254740991 \<or> 9007199254740991 < n then Inl (InvalidArgument ''overflow'')
      else if n < 0 then Inl (InvalidArgument ''value out-of-bounds'')
      else Inr (word_of_int n))"

definition submitReceiptOnChain ::
  "env \<Rightarrow> ExecutionRegistry \<Rightarrow> int \<Rightarrow> string \<Rightarrow> string \<Rightarrow> error + (bytes32 \<times> ExecutionRegistry)" where
  "submitReceiptOnChain e s taskId artifactHash_hex resultHash_hex =
     (case toUint256 taskId of
        Inl err \<Rightarrow> Inl err
      | Inr tid \<Rightarrow>
          (case toBytes32 artifactHash_hex of
             Inl err \<Rightarrow> Inl err
           | Inr a \<Rightarrow>
               (case toBytes32 resultHash_hex of
                  Inl err \<Rightarrow> Inl err
                | Inr r \<Rightarrow>
                    (case submitReceipt e tid a r s of
                       Inl err \<Rightarrow> Inl err
                     | Inr s' \<Rightarrow> Inr (tx_hash e, s')))))"

subsection \<open>The routes\<close>

text \<open>
  A route answers with a status: 400 and 404 with a message, 500 with the error that
  was caught, or 200 with a body. The task id of the URL arrives as the result of
  \<^verbatim>\<open>parseInt\<close>: an integer, or \<^verbatim>\<open>NaN\<close> (here \<open>None\<close>).
\<close>

datatype 'a response =
  Status400 string
| Status404 string
| Status500 error
| Status200 'a

datatype status = PENDING | COMPLETED

datatype task_report = TaskReport int Task status "Receipt option"

datatype execution_report = ExecutionReport int string string string bytes32

text \<open>\<^verbatim>\<open>GET /tasks/:taskId\<close>.\<close>

definition getTaskRoute :: "ExecutionRegistry \<Rightarrow> int option \<Rightarrow> task_report response" where
  "getTaskRoute s parsed =
     (case parsed of
        None \<Rightarrow> Status400 ''Invalid task ID''
      | Some taskId \<Rightarrow>
          if taskId < 0 then Status400 ''Invalid task ID''
          else
            (case toUint256 taskId of
               Inl err \<Rightarrow> Status500 err
             | Inr tid \<Rightarrow>
                 let task = getTask s tid in
                 if requester task = 0 then Status404 ''Task not found''
                 else
                   let receipt = getReceipt s tid;
                       status = (if receipt \<noteq> None then COMPLETED else PENDING)
                   in Status200 (TaskReport taskId task status receipt)))"

text \<open>
  \<^verbatim>\<open>POST /tasks/execute/:taskId\<close>. The benchmark run is an input: its results, or the
  exception it threw. So are the log lines captured up to the moment the log file is
  written, and the time stamp of the receipt file. The report carries the task id, the
  two hex digests, the URL and the hash of the receipt transaction; the benchmark
  summary of the response, a projection of the results, is left out. Every exception is
  caught and answered with status 500; the ledger is then as it was.
\<close>

definition executeTaskRoute ::
  "(bytes \<Rightarrow> bytes32) \<Rightarrow> 'r platform \<Rightarrow> greenfieldConfig \<Rightarrow> env \<Rightarrow>
   filesystem \<times> ExecutionRegistry \<Rightarrow> int option \<Rightarrow> error + 'r \<Rightarrow> string list \<Rightarrow> string \<Rightarrow>
   execution_report response \<times> (filesystem \<times> ExecutionRegistry)" where
  "executeTaskRoute K pf cfg e world parsed benchmark logs now =
     (let (fs, ledger) = world in
      case parsed of
        None \<Rightarrow> (Status400 ''Invalid task ID'', world)
      | Some taskId \<Rightarrow>
          if taskId < 0 then (Status400 ''Invalid task ID'', world)
          else
            (case benchmark of
               Inl err \<Rightarrow> (Status500 err, world)
             | Inr benchmarkResults \<Rightarrow>
                 (case processArtifacts K pf cfg fs (nat taskId) benchmarkResults logs now of
                    Inl err \<Rightarrow> (Status500 err, world)
                  | Inr ((artifactPath, artifactUrl, artifactHash_hex, resultHash_hex), fs') \<Rightarrow>
                      (case submitReceiptOnChain e ledger taskId artifactHash_hex
                              resultHash_hex of
                         Inl err \<Rightarrow> (Status500 err, (fs', ledger))
                       | Inr (txHash, ledger') \<Rightarrow>
                           (Status200
                              (ExecutionReport taskId artifactHash_hex resultHash_hex
                                 artifactUrl txHash),
                            (fs', ledger'))))))"





text \<open>A platform and a storage configuration for the examples.\<close>

definition examplePlatform :: "nat platform" where
  "examplePlatform =
     \<lparr>resultJson = (\<lambda>r. ''{'' @ quote ''iterations'' @ '':'' @ showNat r @ ''}''),
      metricsJson = (\<lambda>r. ''{}''),
      receiptJson = (\<lambda>taskId a r url now. ''{'' @ quote ''taskId'' @ '':'' @ showNat taskId @ ''}''),
      mimeLookup = (\<lambda>name. None)\<rparr>"

definition unconfigured :: greenfieldConfig where
  "unconfigured =
     \<lparr>bucket = None, privateKey = None, accountAddress = None,
      getClient = Inl (StorageFailure ''no client'')\<rparr>"

definition rejecting :: greenfieldConfig where
  "rejecting =
     \<lparr>bucket = Some ''infraproof'', privateKey = Some ''key'', accountAddress = Some ''0xabc'',
      getClient = Inr \<lparr>createObject = (\<lambda>b n c t. Inr 5), uploadObject = (\<lambda>b n c t. Inr 0)\<rparr>\<rparr>"

definition accepting :: greenfieldConfig where
  "accepting =
     \<lparr>bucket = Some ''infraproof'', privateKey = Some ''key'', accountAddress = Some ''0xabc'',
      getClient = Inr \<lparr>createObject = (\<lambda>b n c t. Inr 0), uploadObject = (\<lambda>b n c t. Inr 0)\<rparr>\<rparr>"



section \<open>Simplifier setup\<close>

text \<open>
  The equations of these functions are recursive under an \<open>if\<close>: they are unfolded by hand
  where a proof needs them.
\<close>

declare isPrime_loop.simps [simp del]
declare writeLoop.simps [simp del]
declare readLoop.simps [simp del]
declare ulp.simps [simp del]
declare showNat.simps [simp del]

section \<open>Properties of the ledger\<close>

subsection \<open>Histories\<close>

lemma run_append: "run (cs @ ds) s = run ds (run cs s)"
  by (induction cs arbitrary: s) simp_all

lemma created_ids_append:
  "created_ids (cs @ ds) s = created_ids cs s @ created_ids ds (run cs s)"
  by (induction cs s rule: created_ids.induct) (simp_all split: sum.splits)

lemma receipt_submitted_append:
  "receipt_submitted (cs @ ds) s t \<longleftrightarrow> receipt_submitted cs s t \<or> receipt_submitted ds (run cs s) t"
  by (induction cs s t rule: receipt_submitted.induct) (auto split: sum.splits)



lemma unat_inc: "n \<noteq> - 1 \<Longrightarrow> unat (n + 1 :: 'a::len word) = Suc (unat n)"
  by (simp add: add.commute add_eq_0_iff unatSuc)

lemma less_inc_iff: "n \<noteq> - 1 \<Longrightarrow> (t < (n + 1 :: 'a::len word)) = (t < n \<or> t = n)"
  by (auto simp: word_less_nat_alt unat_inc less_Suc_eq word_unat_eq_iff)

lemma upto_inc:
  "n \<noteq> - 1 \<Longrightarrow>
   map word_of_nat [0..<unat (n + 1 :: 'a::len word)] = map word_of_nat [0..<unat n] @ [n]"
  by (simp add: unat_inc)

lemma createTask_cases:
  "createTask e h s = Inl (ValidationError ''Spec hash cannot be zero'') \<and> h = 0 \<or>
   createTask e h s = Inl (Panic 17) \<and> h \<noteq> 0 \<and> nextTaskId s = - 1 \<or>
   h \<noteq> 0 \<and> nextTaskId s \<noteq> - 1 \<and>
   createTask e h s =
     Inr (nextTaskId s,
          s\<lparr>nextTaskId := nextTaskId s + 1,
            tasks := (tasks s)
              (nextTaskId s := \<lparr>requester = msg_sender e, specHash = h,
                                 createdAt = block_timestamp e\<rparr>),
            emitted := emitted s @ [TaskCreated (nextTaskId s) (msg_sender e) h]\<rparr>)"
  by (simp add: createTask_def Let_def)

lemma exec_nextTaskId:
  "nextTaskId (exec c s) = nextTaskId s \<or>
   (nextTaskId s \<noteq> - 1 \<and> nextTaskId (exec c s) = nextTaskId s + 1)"
  by (cases c) (auto simp: createTask_def submitReceipt_def Let_def)

lemma exec_create_cases:
  "(h = 0 \<or> nextTaskId s = - 1) \<and> exec (CreateTask e h) s = s \<or>
   h \<noteq> 0 \<and> nextTaskId s \<noteq> - 1 \<and>
   exec (CreateTask e h) s =
     s\<lparr>nextTaskId := nextTaskId s + 1,
       tasks := (tasks s)
         (nextTaskId s := \<lparr>requester = msg_sender e, specHash = h,
                            createdAt = block_timestamp e\<rparr>),
       emitted := emitted s @ [TaskCreated (nextTaskId s) (msg_sender e) h]\<rparr>"
  by (simp add: createTask_def Let_def)

lemma exec_submit_cases:
  "(requester (tasks s t) = 0 \<or> operator (receipts s t) \<noteq> 0 \<or> a = 0 \<or> r = 0) \<and>
     exec (SubmitReceipt e t a r) s = s \<or>
   requester (tasks s t) \<noteq> 0 \<and> operator (receipts s t) = 0 \<and> a \<noteq> 0 \<and> r \<noteq> 0 \<and>
   exec (SubmitReceipt e t a r) s =
     s\<lparr>receipts := (receipts s)
         (t := \<lparr>operator = msg_sender e, artifactHash = a, resultHash = r,
               completedAt = block_timestamp e\<rparr>),
       emitted := emitted s @ [ReceiptSubmitted t (msg_sender e) a r]\<rparr>"
  by (simp add: submitReceipt_def)


lemma exec_tasks_below:
  "t < nextTaskId s \<Longrightarrow> tasks (exec c s) t = tasks s t"
  by (cases c) (auto simp: createTask_def submitReceipt_def Let_def)

lemma exec_receipts_kept:
  "operator (receipts s t) \<noteq> 0 \<Longrightarrow> receipts (exec c s) t = receipts s t"
  by (cases c) (auto simp: createTask_def submitReceipt_def Let_def)



lemma exec_submit_frame:
  "nextTaskId (exec (SubmitReceipt e t a r) s) = nextTaskId s"
  "tasks (exec (SubmitReceipt e t a r) s) = tasks s"
  by (simp_all add: submitReceipt_def)

lemma exec_create_frame: "receipts (exec (CreateTask e h) s) = receipts s"
  by (simp add: createTask_def Let_def)

declare exec.simps [simp del]

lemma exec_nextTaskId_mono: "nextTaskId s \<le> nextTaskId (exec c s)"
  using exec_nextTaskId [of c s] by (auto simp: word_le_nat_alt unat_inc)

lemma run_nextTaskId_mono: "nextTaskId s \<le> nextTaskId (run cs s)"
proof (induction cs arbitrary: s)
  case Nil
  show ?case by simp
next
  case (Cons c cs)
  have "nextTaskId s \<le> nextTaskId (exec c s)" by (rule exec_nextTaskId_mono)
  also have "\<dots> \<le> nextTaskId (run cs (exec c s))" by (rule Cons.IH)
  finally show ?case by simp
qed

lemma run_tasks_below: "t < nextTaskId s \<Longrightarrow> tasks (run cs s) t = tasks s t"
proof (induction cs arbitrary: s)
  case Nil
  show ?case by simp
next
  case (Cons c cs)
  have "t < nextTaskId (exec c s)"
    using Cons.prems exec_nextTaskId_mono [of s c] by simp
  then have "tasks (run cs (exec c s)) t = tasks (exec c s) t" by (rule Cons.IH)
  with Cons.prems show ?case by (simp add: exec_tasks_below)
qed

lemma run_receipts_kept:
  "operator (receipts s t) \<noteq> 0 \<Longrightarrow> receipts (run cs s) t = receipts s t"
  by (induction cs arbitrary: s) (simp_all add: exec_receipts_kept)

lemma created_ids_genesis:
  "created_ids cs genesis = map word_of_nat [0..<unat (nextTaskId (run cs genesis))]"
proof (induction cs rule: rev_induct)
  case Nil
  show ?case by (simp add: genesis_def)
next
  case (snoc c cs)
  let ?s = "run cs genesis"
  show ?case
  proof (cases c)
    case (CreateTask e h)
    from createTask_cases [of e h ?s] snoc CreateTask show ?thesis
      by (auto simp: created_ids_append run_append upto_inc exec.simps)
  next
    case (SubmitReceipt e t a r)
    with snoc show ?thesis
      by (simp add: created_ids_append run_append exec_submit_frame)
  qed
qed

lemma fresh_ids_unused:
  "nextTaskId (run cs genesis) \<le> t \<Longrightarrow> requester (tasks (run cs genesis) t) = 0"
proof (induction cs rule: rev_induct)
  case Nil
  show ?case by (simp add: genesis_def)
next
  case (snoc c cs)
  let ?s = "run cs genesis"
  have le: "nextTaskId ?s \<le> t"
    using snoc.prems exec_nextTaskId_mono [of ?s c] by (simp add: run_append)
  then have z: "requester (tasks ?s t) = 0" by (rule snoc.IH)
  show ?case
  proof (cases c)
    case (CreateTask e h)
    from exec_create_cases [of h ?s e] snoc.prems CreateTask z show ?thesis
      by (auto simp: run_append less_inc_iff word_le_nat_alt unat_inc)
  next
    case (SubmitReceipt e t' a r)
    with z show ?thesis
      by (simp add: run_append exec_submit_frame)
  qed
qed

lemma assigned_ids_used:
  "\<forall>c\<in>set cs. caller c \<noteq> 0 \<Longrightarrow> t < nextTaskId (run cs genesis) \<Longrightarrow>
   requester (tasks (run cs genesis) t) \<noteq> 0"
proof (induction cs rule: rev_induct)
  case Nil
  then show ?case by (simp add: genesis_def)
next
  case (snoc c cs)
  let ?s = "run cs genesis"
  have IH: "t < nextTaskId ?s \<Longrightarrow> requester (tasks ?s t) \<noteq> 0"
    using snoc.IH snoc.prems(1) by simp
  show ?case
  proof (cases c)
    case (CreateTask e h)
    from exec_create_cases [of h ?s e] snoc.prems CreateTask IH show ?thesis
      by (auto simp: run_append less_inc_iff split: if_splits)
  next
    case (SubmitReceipt e t' a r)
    with snoc.prems IH show ?thesis
      by (simp add: run_append exec_submit_frame)
  qed
qed

lemma receipt_iff_submitted:
  "\<forall>c\<in>set cs. caller c \<noteq> 0 \<Longrightarrow>
   operator (receipts (run cs genesis) t) \<noteq> 0 \<longleftrightarrow> receipt_submitted cs genesis t"
proof (induction cs rule: rev_induct)
  case Nil
  then show ?case by (simp add: genesis_def)
next
  case (snoc c cs)
  let ?s = "run cs genesis"
  have IH: "operator (receipts ?s t) \<noteq> 0 \<longleftrightarrow> receipt_submitted cs genesis t"
    using snoc.IH snoc.prems(1) by simp
  show ?case
  proof (cases c)
    case (CreateTask e h)
    with IH show ?thesis
      by (simp add: run_append receipt_submitted_append exec_create_frame)
  next
    case (SubmitReceipt e t' a r)
    with snoc.prems IH show ?thesis
      by (auto simp: run_append receipt_submitted_append submitReceipt_def exec.simps)
  qed
qed


lemma created_ids_length:
  "length (created_ids cs genesis) = unat (nextTaskId (run cs genesis))"
  by (simp add: created_ids_genesis)



lemma unat_of_nat_below:
  "k < unat (n :: 'a::len word) \<Longrightarrow> unat (word_of_nat k :: 'a word) = k"
proof -
  assume "k < unat n"
  moreover have "unat n < 2 ^ LENGTH('a)" by simp
  ultimately have "k < 2 ^ LENGTH('a)" by (rule less_trans)
  then show ?thesis by (simp add: unat_of_nat)
qed

lemma created_ids_iff:
  "t \<in> set (created_ids cs genesis) \<longleftrightarrow> t < nextTaskId (run cs genesis)"
proof
  assume "t \<in> set (created_ids cs genesis)"
  then obtain k where k: "k < unat (nextTaskId (run cs genesis))" "t = word_of_nat k"
    by (auto simp: created_ids_genesis)
  then show "t < nextTaskId (run cs genesis)"
    by (simp add: word_less_nat_alt unat_of_nat_below)
next
  assume "t < nextTaskId (run cs genesis)"
  then have "unat t \<in> set [0..<unat (nextTaskId (run cs genesis))]"
    by (simp add: word_less_nat_alt)
  then have "(word_of_nat (unat t) :: uint256) \<in>
      word_of_nat ` set [0..<unat (nextTaskId (run cs genesis))]"
    by (rule imageI)
  then show "t \<in> set (created_ids cs genesis)"
    by (simp add: created_ids_genesis)
qed

lemma created_ids_distinct: "distinct (created_ids cs genesis)"
proof -
  have "inj_on (word_of_nat :: nat \<Rightarrow> uint256) {0..<unat (nextTaskId (run cs genesis))}"
  proof (rule inj_onI)
    fix x y
    assume eq: "(word_of_nat x :: uint256) = word_of_nat y"
    assume "x \<in> {0..<unat (nextTaskId (run cs genesis))}"
      and "y \<in> {0..<unat (nextTaskId (run cs genesis))}"
    then have lt: "x < unat (nextTaskId (run cs genesis))" "y < unat (nextTaskId (run cs genesis))"
      by simp_all
    have "x = unat (word_of_nat x :: uint256)" using lt(1) by (simp add: unat_of_nat_below)
    also have "\<dots> = unat (word_of_nat y :: uint256)" using eq by simp
    also have "\<dots> = y" using lt(2) by (simp add: unat_of_nat_below)
    finally show "x = y" .
  qed
  then show ?thesis by (simp add: created_ids_genesis distinct_map)
qed

lemma task_iff_created:
  assumes "\<forall>c\<in>set cs. caller c \<noteq> 0"
  shows "requester (tasks (run cs genesis) t) \<noteq> 0 \<longleftrightarrow> t \<in> set (created_ids cs genesis)"
proof (cases "t < nextTaskId (run cs genesis)")
  case True
  with assigned_ids_used [OF assms True] show ?thesis by (simp add: created_ids_iff)
next
  case False
  then have "nextTaskId (run cs genesis) \<le> t" by simp
  then have "requester (tasks (run cs genesis) t) = 0" by (rule fresh_ids_unused)
  with False show ?thesis by (simp add: created_ids_iff)
qed

lemma submitted_only_created:
  "receipt_submitted cs genesis t \<Longrightarrow> t \<in> set (created_ids cs genesis)"
proof (induction cs rule: rev_induct)
  case Nil
  then show ?case by simp
next
  case (snoc c cs)
  let ?s = "run cs genesis"
  have mono: "t \<in> set (created_ids cs genesis) \<Longrightarrow> t \<in> set (created_ids (cs @ [c]) genesis)"
    by (simp add: created_ids_append)
  show ?case
  proof (cases c)
    case (CreateTask e h)
    with snoc mono show ?thesis
      by (auto simp: receipt_submitted_append split: sum.splits)
  next
    case (SubmitReceipt e t' a r)
    show ?thesis
    proof (cases "receipt_submitted cs genesis t")
      case True
      with snoc.IH mono show ?thesis by simp
    next
      case False
      with snoc.prems SubmitReceipt
      have ok: "t' = t" "requester (tasks ?s t) \<noteq> 0"
        by (auto simp: receipt_submitted_append submitReceipt_def split: if_splits)
      have "\<not> nextTaskId ?s \<le> t"
        using fresh_ids_unused [of cs t] ok(2) by blast
      then have "t \<in> set (created_ids cs genesis)" by (simp add: created_ids_iff)
      with mono show ?thesis by simp
    qed
  qed
qed


subsection \<open>Creating tasks\<close>

text \<open>
  Claim C5. For every non-zero \<open>specHash\<close>, \<open>createTask\<close> succeeds and returns an id such
  that \<open>getTask\<close> of that id returns a task whose \<open>specHash\<close> is the input and whose
  requester is the caller. For the zero digest \<open>createTask\<close> fails with the validation
  error ``Spec hash cannot be zero'' and the transaction leaves the registry as it was:
  no task is stored and \<open>nextTaskId\<close> does not advance. The success half is stated for a
  registry whose 256-bit counter is not exhausted: at \<open>nextTaskId = 2^256 - 1\<close> the
  checked increment of the source reverts.
\<close>

theorem createTask_then_getTask:
  "(h \<noteq> 0 \<and> nextTaskId s \<noteq> - 1 \<longrightarrow>
      (\<exists>taskId s'. createTask e h s = Inr (taskId, s') \<and>
         specHash (getTask s' taskId) = h \<and> requester (getTask s' taskId) = msg_sender e)) \<and>
   createTask e 0 s = Inl (ValidationError ''Spec hash cannot be zero'') \<and>
   exec (CreateTask e 0) s = s \<and>
   nextTaskId (exec (CreateTask e 0) s) = nextTaskId s \<and>
   tasks (exec (CreateTask e 0) s) = tasks s"
  by (simp add: createTask_def getTask_def Let_def exec.simps)

theorem createTask_then_getTask_witness:
  "(5 :: bytes32) \<noteq> 0 \<and> nextTaskId genesis \<noteq> - 1 \<and>
   (\<exists>taskId s'. createTask alice 5 genesis = Inr (taskId, s') \<and>
      specHash (getTask s' taskId) = 5 \<and> requester (getTask s' taskId) = msg_sender alice)"
  using createTask_then_getTask [of 5 genesis alice] by (simp add: genesis_def)


text \<open>
  Claim C6. Task ids are assigned from 0 upwards, each one greater by one than the
  previous, and never reused: in every history from the empty registry, the ids returned
  by the successful \<open>createTask\<close> calls are \<open>0, 1, \<dots>, n - 1\<close> in this order, they are
  pairwise distinct, and the task stored under an assigned id is the same after any
  further transactions.
\<close>

theorem task_ids_sequential:
  "created_ids cs genesis = map word_of_nat [0..<length (created_ids cs genesis)] \<and>
   distinct (created_ids cs genesis) \<and>
   (\<forall>t\<in>set (created_ids cs genesis). \<forall>ds.
      tasks (run (cs @ ds) genesis) t = tasks (run cs genesis) t)"
proof (intro conjI ballI allI)
  show "created_ids cs genesis = map word_of_nat [0..<length (created_ids cs genesis)]"
    using created_ids_genesis [of cs] by (simp add: created_ids_length)
  show "distinct (created_ids cs genesis)" by (rule created_ids_distinct)
  fix t ds
  assume "t \<in> set (created_ids cs genesis)"
  then have "t < nextTaskId (run cs genesis)" by (simp add: created_ids_iff)
  then show "tasks (run (cs @ ds) genesis) t = tasks (run cs genesis) t"
    by (simp add: run_append run_tasks_below)
qed


theorem task_ids_sequential_witness:
  "created_ids [CreateTask alice 5, CreateTask bob 7] genesis = [0, 1] \<and>
   1 \<in> set (created_ids [CreateTask alice 5, CreateTask bob 7] genesis) \<and>
   tasks (run ([CreateTask alice 5, CreateTask bob 7] @ [CreateTask alice 9]) genesis) 1 =
     tasks (run [CreateTask alice 5, CreateTask bob 7] genesis) 1"
proof -
  have ids: "created_ids [CreateTask alice 5, CreateTask bob 7] genesis = [0, 1]"
    by (simp add: createTask_def genesis_def Let_def)
  then have "1 \<in> set (created_ids [CreateTask alice 5, CreateTask bob 7] genesis)" by simp
  with task_ids_sequential [of "[CreateTask alice 5, CreateTask bob 7]"] ids show ?thesis
    by blast
qed



subsection \<open>Submitting receipts\<close>

text \<open>
  Claim C3. In the state reached by any history (of transactions whose senders are not
  the zero address, as on the EVM), \<open>submitReceipt\<close> fails with the not-found error
  ``Task does not exist'' when no task was created under the id; fails with the conflict
  error ``Receipt already submitted'' when a receipt was already submitted for the id;
  fails with a validation error when the task exists, has no receipt, and one of the
  hashes is the zero digest; and succeeds exactly when none of these holds, storing the
  receipt. The checks apply in this order, so each call fails with the first error that
  applies. After a successful submission, every later \<open>submitReceipt\<close> for the same id,
  by any caller with any hashes and after any further transactions, fails with the
  conflict error and leaves the stored receipt (operator, artifactHash, resultHash,
  completedAt) as the first call wrote it.
\<close>

theorem submitReceipt_outcomes:
  assumes callers: "\<forall>c\<in>set cs. caller c \<noteq> 0" and sender: "msg_sender e \<noteq> 0"
  shows
   "(taskId \<notin> set (created_ids cs genesis) \<longrightarrow>
       submitReceipt e taskId a r (run cs genesis) = Inl (NotFoundError ''Task does not exist'')) \<and>
    (receipt_submitted cs genesis taskId \<longrightarrow>
       submitReceipt e taskId a r (run cs genesis) =
         Inl (ConflictError ''Receipt already submitted'')) \<and>
    (taskId \<in> set (created_ids cs genesis) \<and> \<not> receipt_submitted cs genesis taskId \<and>
       (a = 0 \<or> r = 0) \<longrightarrow>
       submitReceipt e taskId a r (run cs genesis) =
         Inl (ValidationError (if a = 0 then ''Artifact hash cannot be zero''
                               else ''Result hash cannot be zero''))) \<and>
    ((\<exists>s'. submitReceipt e taskId a r (run cs genesis) = Inr s') \<longleftrightarrow>
       taskId \<in> set (created_ids cs genesis) \<and> \<not> receipt_submitted cs genesis taskId \<and>
       a \<noteq> 0 \<and> r \<noteq> 0) \<and>
    (\<forall>s'. submitReceipt e taskId a r (run cs genesis) = Inr s' \<longrightarrow>
       receipts s' taskId =
         \<lparr>operator = msg_sender e, artifactHash = a, resultHash = r,
          completedAt = block_timestamp e\<rparr> \<and>
       (\<forall>ds e' a' r'.
          submitReceipt e' taskId a' r' (run ds s') =
            Inl (ConflictError ''Receipt already submitted'') \<and>
          receipts (exec (SubmitReceipt e' taskId a' r') (run ds s')) taskId =
            receipts s' taskId))"
proof -
  let ?s = "run cs genesis"
  have task: "requester (tasks ?s taskId) \<noteq> 0 \<longleftrightarrow> taskId \<in> set (created_ids cs genesis)"
    by (rule task_iff_created [OF callers])
  have rcpt: "operator (receipts ?s taskId) \<noteq> 0 \<longleftrightarrow> receipt_submitted cs genesis taskId"
    by (rule receipt_iff_submitted [OF callers])
  have sub: "receipt_submitted cs genesis taskId \<Longrightarrow> requester (tasks ?s taskId) \<noteq> 0"
    using submitted_only_created [of cs taskId] task by simp
  have p1: "taskId \<notin> set (created_ids cs genesis) \<longrightarrow>
       submitReceipt e taskId a r ?s = Inl (NotFoundError ''Task does not exist'')"
    using task by (simp add: submitReceipt_def)
  have p2: "receipt_submitted cs genesis taskId \<longrightarrow>
       submitReceipt e taskId a r ?s = Inl (ConflictError ''Receipt already submitted'')"
    using sub rcpt by (simp add: submitReceipt_def)
  have p3: "taskId \<in> set (created_ids cs genesis) \<and> \<not> receipt_submitted cs genesis taskId \<and>
       (a = 0 \<or> r = 0) \<longrightarrow>
       submitReceipt e taskId a r ?s =
         Inl (ValidationError (if a = 0 then ''Artifact hash cannot be zero''
                               else ''Result hash cannot be zero''))"
    using task rcpt by (auto simp: submitReceipt_def)
  have p4: "(\<exists>s'. submitReceipt e taskId a r ?s = Inr s') \<longleftrightarrow>
       taskId \<in> set (created_ids cs genesis) \<and> \<not> receipt_submitted cs genesis taskId \<and>
       a \<noteq> 0 \<and> r \<noteq> 0"
    using task rcpt by (auto simp: submitReceipt_def split: if_splits)
  have p5: "\<forall>s'. submitReceipt e taskId a r ?s = Inr s' \<longrightarrow>
       receipts s' taskId =
         \<lparr>operator = msg_sender e, artifactHash = a, resultHash = r,
          completedAt = block_timestamp e\<rparr> \<and>
       (\<forall>ds e' a' r'.
          submitReceipt e' taskId a' r' (run ds s') =
            Inl (ConflictError ''Receipt already submitted'') \<and>
          receipts (exec (SubmitReceipt e' taskId a' r') (run ds s')) taskId =
            receipts s' taskId)"
  proof (intro allI impI)
    fix s'
    assume ok: "submitReceipt e taskId a r ?s = Inr s'"
    then have stored: "receipts s' taskId =
         \<lparr>operator = msg_sender e, artifactHash = a, resultHash = r,
          completedAt = block_timestamp e\<rparr>"
      and tasks': "tasks s' = tasks ?s" and ex: "requester (tasks ?s taskId) \<noteq> 0"
      by (auto simp: submitReceipt_def split: if_splits)
    from stored sender have op: "operator (receipts s' taskId) \<noteq> 0" by simp
    have later: "submitReceipt e' taskId a' r' (run ds s') =
            Inl (ConflictError ''Receipt already submitted'') \<and>
          receipts (exec (SubmitReceipt e' taskId a' r') (run ds s')) taskId =
            receipts s' taskId" for ds e' a' r'
    proof -
      have keep: "receipts (run ds s') taskId = receipts s' taskId"
        using op by (rule run_receipts_kept)
      have "taskId < nextTaskId ?s"
        using ex task by (simp add: created_ids_iff)
      moreover have "nextTaskId s' = nextTaskId ?s"
        using ok by (auto simp: submitReceipt_def split: if_splits)
      ultimately have "taskId < nextTaskId s'" by simp
      then have "tasks (run ds s') taskId = tasks s' taskId" by (rule run_tasks_below)
      with tasks' ex have ex': "requester (tasks (run ds s') taskId) \<noteq> 0" by simp
      from op keep have op': "operator (receipts (run ds s') taskId) \<noteq> 0" by simp
      from ex' op' have "submitReceipt e' taskId a' r' (run ds s') =
            Inl (ConflictError ''Receipt already submitted'')"
        by (simp add: submitReceipt_def)
      then show ?thesis using keep by (simp add: exec.simps)
    qed
    from stored later show "receipts s' taskId =
         \<lparr>operator = msg_sender e, artifactHash = a, resultHash = r,
          completedAt = block_timestamp e\<rparr> \<and>
       (\<forall>ds e' a' r'.
          submitReceipt e' taskId a' r' (run ds s') =
            Inl (ConflictError ''Receipt already submitted'') \<and>
          receipts (exec (SubmitReceipt e' taskId a' r') (run ds s')) taskId =
            receipts s' taskId)" by blast
  qed
  from p1 p2 p3 p4 p5 show ?thesis by (intro conjI)
qed


theorem submitReceipt_outcomes_witness:
  "caller (CreateTask alice 5) \<noteq> 0 \<and> msg_sender bob \<noteq> 0 \<and>
   submitReceipt bob 7 11 12 (run [CreateTask alice 5] genesis) =
     Inl (NotFoundError ''Task does not exist'') \<and>
   submitReceipt bob 0 0 12 (run [CreateTask alice 5] genesis) =
     Inl (ValidationError ''Artifact hash cannot be zero'') \<and>
   (\<exists>s'. submitReceipt bob 0 11 12 (run [CreateTask alice 5] genesis) = Inr s' \<and>
      operator (receipts s' 0) = 2 \<and>
      submitReceipt alice 0 13 14 s' = Inl (ConflictError ''Receipt already submitted''))"
proof -
  let ?cs = "[CreateTask alice 5]"
  have callers: "\<forall>c\<in>set ?cs. caller c \<noteq> 0" and sender: "msg_sender bob \<noteq> 0"
    by (simp_all add: alice_def bob_def)
  have ids: "created_ids ?cs genesis = [0]"
    by (simp add: createTask_def genesis_def Let_def)
  have none: "\<not> receipt_submitted ?cs genesis 0"
    by (simp add: exec.simps)
  from submitReceipt_outcomes [OF callers sender, of 7 11 12] ids
  have a: "submitReceipt bob 7 11 12 (run ?cs genesis) =
      Inl (NotFoundError ''Task does not exist'')"
    by simp
  from submitReceipt_outcomes [OF callers sender, of 0 0 12] ids none
  have b: "submitReceipt bob 0 0 12 (run ?cs genesis) =
      Inl (ValidationError ''Artifact hash cannot be zero'')"
    by simp
  from submitReceipt_outcomes [OF callers sender, of 0 11 12] ids none
  obtain s' where s': "submitReceipt bob 0 11 12 (run ?cs genesis) = Inr s'"
    by auto
  with submitReceipt_outcomes [OF callers sender, of 0 11 12]
  have c: "receipts s' 0 =
        \<lparr>operator = msg_sender bob, artifactHash = 11, resultHash = 12,
         completedAt = block_timestamp bob\<rparr>"
    and d: "submitReceipt alice 0 13 14 (run [] s') =
        Inl (ConflictError ''Receipt already submitted'')"
    by blast+
  from c have "operator (receipts s' 0) = 2" by (simp add: bob_def)
  with a b s' d callers sender show ?thesis by auto
qed

section \<open>Properties of the hashing\<close>

subsection \<open>Hex strings and digests\<close>

lemma hexValue_hexDigit: "n < 16 \<Longrightarrow> hexValue (hexDigit n) = Some n"
  by (auto simp: hexValue_def hexDigit_def Let_def)

lemma parseHex_hexByte: "parseHex (hexByte b @ cs) = map_option ((#) b) (parseHex cs)"
proof -
  have d: "unat b div 16 < 16"
    using unsigned_less [of b, where 'a = nat] by (simp add: less_mult_imp_div_less)
  have m: "unat b mod 16 < 16" by simp
  have "word_of_nat (16 * (unat b div 16) + unat b mod 16) = b"
    by simp
  with d m show ?thesis
    by (cases "parseHex cs") (simp_all add: hexByte_def hexValue_hexDigit del: mult_div_mod_eq)
qed

lemma parseHex_hex: "parseHex (concat (map hexByte bs)) = Some bs"
  by (induction bs) (simp_all add: parseHex_hexByte)

lemma getBytes_hexlify: "getBytes (hexlify bs) = Inr bs"
  by (simp add: getBytes_def hexlify_def parseHex_hex)

lemma getBytes_0x_hex: "getBytes (''0x'' @ concat (map hexByte bs)) = Inr bs"
  using getBytes_hexlify [of bs] by (simp add: hexlify_def)

lemma drop_hexDigest: "drop 2 (hexDigest d) = concat (map hexByte (bytes_of_digest d))"
  by (simp add: hexDigest_def hexlify_def)

lemma length_bytes_be: "length (bytes_be k n) = k"
  by (induction k arbitrary: n) simp_all




lemma length_bytes_of_digest: "length (bytes_of_digest w) = 32"
  by (simp add: bytes_of_digest_def length_bytes_be)


lemma keccak256_Buffer: "keccak256 K (Buffer bs) = Inr (hexDigest (K bs))"
  by (simp add: keccak256_def)

lemma keccak256_hex:
  "keccak256 K (HexString (CHR ''0'' # CHR ''x'' # concat (map hexByte bs))) =
   Inr (hexDigest (K bs))"
  using getBytes_0x_hex [of bs] by (simp add: keccak256_def)

lemma keccak256_0x: "keccak256 K (HexString ''0x'') = Inr (hexDigest (K []))"
  using keccak256_hex [of K "[]"] by simp

lemma of_char_small: "of_char x < (65536::nat)"
proof -
  have m: "(of_char x :: nat) mod 256 < 256" by (rule mod_less_divisor) simp
  have e: "(of_char x :: nat) mod 256 = of_char x" by (rule of_char_mod_256)
  from m have "(of_char x :: nat) < 256" unfolding e .
  then show ?thesis by (rule less_trans) simp
qed

lemma codeUnit_eq_iff:
  "(word_of_nat (of_char c) :: 16 word) = word_of_nat (of_char d) \<longleftrightarrow> c = d"
proof
  assume eq: "(word_of_nat (of_char c) :: 16 word) = word_of_nat (of_char d)"
  have "unat (word_of_nat (of_char x) :: 16 word) = of_char x" for x :: char
    using of_char_small [of x] by (simp add: unat_of_nat)
  with eq have "(of_char c :: nat) = of_char d" by metis
  then show "c = d" by simp
qed simp

lemma codeUnits_eq_iff [simp]: "codeUnits a = codeUnits b \<longleftrightarrow> a = b"
proof (induction a arbitrary: b)
  case Nil
  show ?case by (cases b) (simp_all add: codeUnits_def)
next
  case (Cons c a)
  show ?case
  proof (cases b)
    case Nil
    then show ?thesis by (simp add: codeUnits_def)
  next
    case (Cons d b')
    with Cons.IH [of b'] show ?thesis by (simp add: codeUnits_def codeUnit_eq_iff)
  qed
qed

lemma hashFiles_eq:
  "set names \<subseteq> fst ` set dir \<Longrightarrow>
   hashFiles K dir names acc =
     Inr (acc @ concat (map hexByte (concat (map bytes_of_digest (digestsOf K dir names)))))"
proof (induction names arbitrary: acc)
  case Nil
  show ?case by (simp add: digestsOf_def)
next
  case (Cons name names)
  from Cons.prems obtain e where e: "map_of dir name = Some e"
    by (cases "map_of dir name") (auto simp: map_of_eq_None_iff)
  from Cons.prems have sub: "set names \<subseteq> fst ` set dir" by simp
  show ?case
  proof (cases e)
    case (RegularFile content)
    with e Cons.IH [OF sub] show ?thesis
      by (simp add: digestsOf_def keccak256_Buffer drop_hexDigest)
  next
    case Directory
    with e Cons.IH [OF sub] show ?thesis
      by (simp add: digestsOf_def)
  qed
qed

lemma hashArtifactFolder_eq:
  assumes "fs folderPath = Some dir"
  shows "hashArtifactFolder K fs folderPath = Inr (hexDigest (artifactHash_spec K dir))"
proof -
  let ?ds = "fileDigests K dir"
  let ?bs = "concat (map bytes_of_digest ?ds)"
  have "set (sort (readdir dir)) \<subseteq> fst ` set dir" by (simp add: readdir_def)
  then have loop: "hashFiles K dir (sort (readdir dir)) [] = Inr (concat (map hexByte ?bs))"
    by (simp add: hashFiles_eq fileDigests_def)
  show ?thesis
  proof (cases "concat (map hexByte ?bs) = []")
    case True
    then have "?bs = []" by (cases ?bs) (simp_all add: hexByte_def)
    then have spec: "artifactHash_spec K dir = K []" by (simp only: artifactHash_spec_def)
    from loop True have "hashFiles K dir (sort (readdir dir)) [] = Inr []" by simp
    with assms show ?thesis
      by (simp add: hashArtifactFolder_def spec keccak256_0x)
  next
    case False
    with assms loop show ?thesis
      by (simp add: hashArtifactFolder_def artifactHash_spec_def keccak256_hex)
  qed
qed


lemma no_regular_files:
  assumes "\<forall>e\<in>snd ` set dir. e = Directory"
  shows "fileDigests K dir = []"
proof -
  have "(case map_of dir name of Some (RegularFile content) \<Rightarrow> [K content] | _ \<Rightarrow> []) = []"
    for name
  proof (cases "map_of dir name")
    case None
    then show ?thesis by simp
  next
    case (Some e)
    then have "(name, e) \<in> set dir" by (rule map_of_SomeD)
    then have "e \<in> snd ` set dir" by force
    with assms have "e = Directory" by blast
    with Some show ?thesis by simp
  qed
  then show ?thesis by (simp add: fileDigests_def digestsOf_def)
qed

lemma same_entries_same_digests:
  assumes "distinct (map fst dir)" "distinct (map fst dir')" "set dir' = set dir"
  shows "fileDigests K dir' = fileDigests K dir"
proof -
  from assms have m: "map_of dir' = map_of dir" by (simp add: map_of_inject_set)
  have "set (map fst dir') = set (map fst dir)" using assms(3) by simp
  with assms(1,2) have "sort (map fst dir') = sort (map fst dir)"
    by (intro sorted_distinct_set_unique) simp_all
  with m show ?thesis by (simp add: fileDigests_def digestsOf_def readdir_def)
qed

subsection \<open>The artifact hash\<close>

text \<open>
  Claim C4. \<open>hashArtifactFolder\<close> returns (as a hex string) the hash the specification
  describes: the names of the directory sorted lexicographically (by UTF-16 code units,
  as JavaScript compares strings, whatever characters the names hold), the content hash of
  each regular file, anything that is not a file skipped, the hashes concatenated in
  that order, and the concatenation hashed. For a directory with no regular file, the
  empty one included, it is the hash of the empty byte string. And the hash depends
  only on the set of entries: two directories with the same names and contents, listed
  in any order, have the same artifact hash.
\<close>

theorem hashArtifactFolder_spec:
  assumes "fs folderPath = Some dir"
  shows
   "hashArtifactFolder K fs folderPath = Inr (hexDigest (artifactHash_spec K dir)) \<and>
    ((\<forall>e\<in>snd ` set dir. e = Directory) \<longrightarrow>
       hashArtifactFolder K fs folderPath = Inr (hexDigest (K []))) \<and>
    (\<forall>fs' folderPath' dir'.
       fs' folderPath' = Some dir' \<and> distinct (map fst dir) \<and> distinct (map fst dir') \<and>
       set dir' = set dir \<longrightarrow>
       hashArtifactFolder K fs' folderPath' = hashArtifactFolder K fs folderPath)"
proof (intro conjI impI allI)
  show eq: "hashArtifactFolder K fs folderPath = Inr (hexDigest (artifactHash_spec K dir))"
    using assms by (rule hashArtifactFolder_eq)
  show "hashArtifactFolder K fs folderPath = Inr (hexDigest (K []))"
    if "\<forall>e\<in>snd ` set dir. e = Directory"
  proof -
    from that have "fileDigests K dir = []" by (rule no_regular_files)
    then have "artifactHash_spec K dir = K []" by (simp add: artifactHash_spec_def)
    with eq show ?thesis by simp
  qed
  show "hashArtifactFolder K fs' folderPath' = hashArtifactFolder K fs folderPath"
    if h: "fs' folderPath' = Some dir' \<and> distinct (map fst dir) \<and> distinct (map fst dir') \<and>
       set dir' = set dir" for fs' folderPath' dir'
  proof -
    from h have "fileDigests K dir' = fileDigests K dir"
      by (intro same_entries_same_digests) simp_all
    then have "artifactHash_spec K dir' = artifactHash_spec K dir"
      by (simp add: artifactHash_spec_def)
    moreover from h have "hashArtifactFolder K fs' folderPath' =
        Inr (hexDigest (artifactHash_spec K dir'))"
      by (intro hashArtifactFolder_eq) simp
    ultimately show ?thesis using eq by simp
  qed
qed

theorem hashArtifactFolder_spec_witness:
  "exampleFs ''artifacts/task-0'' = Some exampleFolder \<and>
   hashArtifactFolder toyHash exampleFs ''artifacts/task-0'' = Inr (hexDigest 65) \<and>
   hashArtifactFolder toyHash (\<lambda>p. Some exampleFolder') ''elsewhere'' = Inr (hexDigest 65) \<and>
   hashArtifactFolder toyHash (\<lambda>p. Some [(codeUnits ''tmp'', Directory)]) ''artifacts/task-1'' =
     Inr (hexDigest (toyHash [])) \<and>
   fileDigests toyHash unicodeFolder = [toyHash [2, 2], toyHash [1]]"
proof -
  have there: "exampleFs ''artifacts/task-0'' = Some exampleFolder"
    by (simp add: exampleFs_def)
  have there': "(\<lambda>p. Some exampleFolder') ''elsewhere'' = Some exampleFolder'" by simp
  have names: "sort (readdir exampleFolder) =
      [codeUnits ''execution.log'', codeUnits ''result.json'', codeUnits ''tmp'']"
    by code_simp
  have names': "sort (readdir unicodeFolder) = [[0xD83D, 0xDE00], [0xFF5E]]"
    by code_simp
  have d: "fileDigests toyHash unicodeFolder = [toyHash [2, 2], toyHash [1]]"
    unfolding fileDigests_def names' by (simp add: digestsOf_def unicodeFolder_def)
  have len: "length (bytes_of_digest x) = 32" for x by (rule length_bytes_of_digest)
  have digests: "fileDigests toyHash exampleFolder = [toyHash [10], toyHash [123, 125]]"
    unfolding fileDigests_def names by (simp add: digestsOf_def exampleFolder_def)
  have spec: "artifactHash_spec toyHash exampleFolder = 65"
    unfolding artifactHash_spec_def digests by (simp add: toyHash_def [of "_ @ _"] len)
  have same: "distinct (map fst exampleFolder) \<and> distinct (map fst exampleFolder') \<and>
      set exampleFolder' = set exampleFolder"
    by (auto simp: exampleFolder_def exampleFolder'_def)
  note main = hashArtifactFolder_spec
    [of exampleFs "''artifacts/task-0''" exampleFolder toyHash, OF there]
  from main [THEN conjunct1] spec have a:
    "hashArtifactFolder toyHash exampleFs ''artifacts/task-0'' = Inr (hexDigest 65)"
    by simp
  have "hashArtifactFolder toyHash (\<lambda>p. Some exampleFolder') ''elsewhere'' =
     hashArtifactFolder toyHash exampleFs ''artifacts/task-0''"
    by (rule main [THEN conjunct2, THEN conjunct2, rule_format,
          of "\<lambda>p. Some exampleFolder'" "''elsewhere''" exampleFolder'])
       (use same in simp)
  with a have b: "hashArtifactFolder toyHash (\<lambda>p. Some exampleFolder') ''elsewhere'' =
      Inr (hexDigest 65)" by simp
  have "(\<lambda>p. Some [(codeUnits ''tmp'', Directory)]) ''artifacts/task-1'' =
      Some [(codeUnits ''tmp'', Directory)]"
    by simp
  from hashArtifactFolder_spec
    [of "\<lambda>p. Some [(codeUnits ''tmp'', Directory)]" "''artifacts/task-1''"
        "[(codeUnits ''tmp'', Directory)]" toyHash,
     OF this, THEN conjunct2, THEN conjunct1]
  have c: "hashArtifactFolder toyHash (\<lambda>p. Some [(codeUnits ''tmp'', Directory)])
      ''artifacts/task-1'' = Inr (hexDigest (toyHash []))"
    by simp
  from there a b c d show ?thesis by blast
qed

subsection \<open>The specification hash\<close>

lemma taskSpec_keys_sorted:
  "sort [''type'', ''duration'', ''config'', ''createdAt''] =
   [''config'', ''createdAt'', ''duration'', ''type'']"
  by code_simp

lemma showInt_30: "showInt 30 = ''30''"
  by code_simp

lemma stringify_taskSpec:
  "stringify (JObject (taskSpecObject spec)) (sort (map fst (taskSpecObject spec))) =
     ''{'' @ quote ''config'' @ '':{},'' @
     quote ''createdAt'' @ '':'' @ quote (spec_createdAt spec) @ '','' @
     quote ''duration'' @ '':'' @ showInt (duration spec) @ '','' @
     quote ''type'' @ '':'' @ quote (spec_type spec) @ ''}''"
  by (simp add: taskSpecObject_def stringify_def taskSpec_keys_sorted)

lemma hashJSON_ignores_config:
  "hashJSON K (taskSpecObject (spec\<lparr>config := c\<rparr>)) = hashJSON K (taskSpecObject spec)"
  by (simp add: hashJSON_def stringify_taskSpec Let_def)

text \<open>
  Claim C2. The claim says that two task specifications hash equally only if they are
  equal, and in particular that specifications differing in \<open>memorySizeMB\<close> hash
  differently. The code does sort the top-level keys, but it passes them to
  \<^verbatim>\<open>JSON.stringify\<close> as the replacer array, which also selects the keys written for the
  nested \<open>config\<close> object: none of \<open>cpuDurationMs\<close>, \<open>memorySizeMB\<close>, \<open>diskSizeMB\<close> is in
  the list, so \<open>config\<close> is always written as the empty object. Two specifications that
  differ only in \<open>memorySizeMB\<close> have the same text and hence the same hash, whatever
  the hash function.
\<close>

theorem hashJSON_drops_config:
  "spec100 \<noteq> spec200 \<and>
   memorySizeMB (config spec100) \<noteq> memorySizeMB (config spec200) \<and>
   stringify (JObject (taskSpecObject spec100)) (sort (map fst (taskSpecObject spec100))) =
     ''{'' @ quote ''config'' @ '':{},'' @
     quote ''createdAt'' @ '':'' @ quote ''2024-01-01T00:00:00.000Z'' @ '','' @
     quote ''duration'' @ '':30,'' @
     quote ''type'' @ '':'' @ quote ''SERVER_BENCHMARK'' @ ''}'' \<and>
   stringify (JObject (taskSpecObject spec200)) (sort (map fst (taskSpecObject spec200))) =
     stringify (JObject (taskSpecObject spec100)) (sort (map fst (taskSpecObject spec100))) \<and>
   hashJSON K (taskSpecObject spec200) = hashJSON K (taskSpecObject spec100)"
proof -
  have ne: "spec100 \<noteq> spec200" by (simp add: spec100_def spec200_def)
  have mem: "memorySizeMB (config spec100) \<noteq> memorySizeMB (config spec200)"
    by (simp add: spec100_def spec200_def)
  have f100: "spec_createdAt spec100 = ''2024-01-01T00:00:00.000Z''" "duration spec100 = 30"
    "spec_type spec100 = ''SERVER_BENCHMARK''"
    by (simp_all add: spec100_def)
  have s100: "stringify (JObject (taskSpecObject spec100)) (sort (map fst (taskSpecObject spec100))) =
     ''{'' @ quote ''config'' @ '':{},'' @
     quote ''createdAt'' @ '':'' @ quote ''2024-01-01T00:00:00.000Z'' @ '','' @
     quote ''duration'' @ '':30,'' @
     quote ''type'' @ '':'' @ quote ''SERVER_BENCHMARK'' @ ''}''"
    unfolding stringify_taskSpec f100 showInt_30 by simp
  have eq: "spec200 = spec100\<lparr>config := config spec200\<rparr>"
    by (simp add: spec100_def spec200_def)
  have same: "stringify (JObject (taskSpecObject spec200)) (sort (map fst (taskSpecObject spec200))) =
     stringify (JObject (taskSpecObject spec100)) (sort (map fst (taskSpecObject spec100)))"
    unfolding stringify_taskSpec by (simp add: spec100_def spec200_def)
  have "hashJSON K (taskSpecObject spec200) = hashJSON K (taskSpecObject spec100)"
    by (subst eq) (rule hashJSON_ignores_config)
  with ne mem s100 same show ?thesis by blast
qed


section \<open>Properties of the benchmark\<close>

subsection \<open>Trial division\<close>

lemma isPrime_loop_iff:
  "isPrime_loop n i \<longleftrightarrow>
   (\<forall>k. (i + 6 * k) * (i + 6 * k) \<le> n \<longrightarrow> \<not> (i + 6 * k) dvd n \<and> \<not> (i + 6 * k + 2) dvd n)"
proof (induction n i rule: isPrime_loop.induct)
  case (1 n i)
  show ?case
  proof (cases "i * i \<le> n")
    case False
    have "\<not> (i + 6 * k) * (i + 6 * k) \<le> n" for k
    proof -
      have "i * i \<le> (i + 6 * k) * (i + 6 * k)" by (simp add: mult_le_mono)
      with False show ?thesis by simp
    qed
    with False show ?thesis by (subst isPrime_loop.simps) simp
  next
    case True
    show ?thesis
    proof (cases "n mod i = 0 \<or> n mod (i + 2) = 0")
      case div: True
      then have "i dvd n \<or> (i + 2) dvd n" by (auto simp: dvd_eq_mod_eq_0)
      with True have "\<not> (\<forall>k. (i + 6 * k) * (i + 6 * k) \<le> n \<longrightarrow>
          \<not> (i + 6 * k) dvd n \<and> \<not> (i + 6 * k + 2) dvd n)"
        by (auto intro: exI [of _ 0])
      with True div show ?thesis by (subst isPrime_loop.simps) simp
    next
      case nodiv: False
      then have nd: "\<not> i dvd n" "\<not> (i + 2) dvd n" by (auto simp: dvd_eq_mod_eq_0)
      have IH: "isPrime_loop n (i + 6) \<longleftrightarrow>
        (\<forall>k. (i + 6 + 6 * k) * (i + 6 + 6 * k) \<le> n \<longrightarrow>
           \<not> (i + 6 + 6 * k) dvd n \<and> \<not> (i + 6 + 6 * k + 2) dvd n)"
        using "1.IH" True nodiv by simp
      have shift: "(\<forall>k. (i + 6 * k) * (i + 6 * k) \<le> n \<longrightarrow>
           \<not> (i + 6 * k) dvd n \<and> \<not> (i + 6 * k + 2) dvd n) \<longleftrightarrow>
        (\<forall>k. (i + 6 + 6 * k) * (i + 6 + 6 * k) \<le> n \<longrightarrow>
           \<not> (i + 6 + 6 * k) dvd n \<and> \<not> (i + 6 + 6 * k + 2) dvd n)"
        (is "?L \<longleftrightarrow> ?R")
      proof
        assume L: ?L
        show ?R
        proof (intro allI impI)
          fix k
          assume "(i + 6 + 6 * k) * (i + 6 + 6 * k) \<le> n"
          with L [rule_format, of "Suc k"] show
            "\<not> (i + 6 + 6 * k) dvd n \<and> \<not> (i + 6 + 6 * k + 2) dvd n"
            by (simp add: algebra_simps)
        qed
      next
        assume R: ?R
        show ?L
        proof (intro allI impI)
          fix k
          assume le: "(i + 6 * k) * (i + 6 * k) \<le> n"
          show "\<not> (i + 6 * k) dvd n \<and> \<not> (i + 6 * k + 2) dvd n"
          proof (cases k)
            case 0
            with nd show ?thesis by simp
          next
            case (Suc j)
            with le R [rule_format, of j] show ?thesis by (simp add: algebra_simps)
          qed
        qed
      qed
      from True nodiv have "isPrime_loop n i = isPrime_loop n (i + 6)"
        by (subst isPrime_loop.simps) simp
      with IH shift show ?thesis by simp
    qed
  qed
qed


lemma small_factor:
  assumes "d dvd (n::nat)" "2 \<le> d" "d < n"
  shows "\<exists>m. m dvd n \<and> 2 \<le> m \<and> m * m \<le> n"
proof -
  from assms(1) obtain e where e: "n = d * e" by (rule dvdE)
  have "e \<noteq> 0"
  proof
    assume "e = 0"
    with e have "n = 0" by simp
    with assms(3) show False by simp
  qed
  moreover have "e \<noteq> 1"
  proof
    assume "e = 1"
    with e have "n = d" by simp
    with assms(3) show False by simp
  qed
  ultimately have e2: "2 \<le> e" by linarith
  have dn: "d dvd n" by (rule assms(1))
  have en: "e dvd n" unfolding e by (rule dvd_triv_right)
  show ?thesis
  proof (cases "d \<le> e")
    case True
    then have "d * d \<le> d * e" by (rule mult_le_mono2)
    then have "d * d \<le> n" unfolding e .
    with dn assms(2) have "d dvd n \<and> 2 \<le> d \<and> d * d \<le> n" by blast
    then show ?thesis by (rule exI)
  next
    case False
    then have "e \<le> d" by simp
    then have "e * e \<le> d * e" by (rule mult_le_mono1)
    then have "e * e \<le> n" unfolding e .
    with en e2 have "e dvd n \<and> 2 \<le> e \<and> e * e \<le> n" by blast
    then show ?thesis by (rule exI)
  qed
qed

lemma mod6_cases:
  assumes "\<not> 2 dvd (m::nat)" "\<not> 3 dvd m" "2 \<le> m"
  shows "(\<exists>k. m = 5 + 6 * k) \<or> (\<exists>k. m = 5 + 6 * k + 2)"
proof -
  define q r where "q = m div 6" and "r = m mod 6"
  have m: "m = 6 * q + r" and r6: "r < 6" by (simp_all add: q_def r_def)
  from r6 consider "r = 0" | "r = 1" | "r = 2" | "r = 3" | "r = 4" | "r = 5" by linarith
  then show ?thesis
  proof cases
    case 1
    with m have "m = 2 * (3 * q)" by simp
    with assms(1) show ?thesis by (metis dvd_triv_left)
  next
    case 2
    have "q \<noteq> 0" using m 2 assms(3) by (cases q) simp_all
    then obtain k where "q = Suc k" by (cases q) simp_all
    with m 2 have "m = 5 + 6 * k + 2" by simp
    then show ?thesis by blast
  next
    case 3
    with m have "m = 2 * (3 * q + 1)" by simp
    with assms(1) show ?thesis by (metis dvd_triv_left)
  next
    case 4
    with m have "m = 3 * (2 * q + 1)" by simp
    with assms(2) show ?thesis by (metis dvd_triv_left)
  next
    case 5
    with m have "m = 2 * (3 * q + 2)" by simp
    with assms(1) show ?thesis by (metis dvd_triv_left)
  next
    case 6
    with m have "m = 5 + 6 * q" by simp
    then show ?thesis by blast
  qed
qed

lemma loop_facts:
  assumes "isPrime_loop n 5" "(5 + 6 * k) * (5 + 6 * k) \<le> n"
  shows "\<not> (5 + 6 * k) dvd n" "\<not> (5 + 6 * k + 2) dvd n"
  using assms unfolding isPrime_loop_iff by blast+

lemma no_factor:
  assumes n2: "\<not> 2 dvd n" and n3: "\<not> 3 dvd n" and loop: "isPrime_loop n 5"
    and d: "d dvd n" "2 \<le> d" "d < n"
  shows False
proof -
  from small_factor [OF d] obtain m where m: "m dvd n" "2 \<le> m" "m * m \<le> n" by blast
  have "\<not> 2 dvd m" using m(1) n2 by (blast intro: dvd_trans)
  moreover have "\<not> 3 dvd m" using m(1) n3 by (blast intro: dvd_trans)
  ultimately consider k where "m = 5 + 6 * k" | k where "m = 5 + 6 * k + 2"
    using mod6_cases [of m] m(2) by blast
  then show False
  proof cases
    case (1 k)
    then have eq: "m = 5 + 6 * k" .
    from m(3) have "(5 + 6 * k) * (5 + 6 * k) \<le> n" by (simp add: eq)
    with loop have "\<not> (5 + 6 * k) dvd n" by (rule loop_facts)
    with m(1) show False by (simp add: eq)
  next
    case (2 k)
    then have eq: "m = 5 + 6 * k + 2" .
    have le: "5 + 6 * k \<le> m" by (simp add: eq)
    from le le have "(5 + 6 * k) * (5 + 6 * k) \<le> m * m" by (rule mult_le_mono)
    from this m(3) have "(5 + 6 * k) * (5 + 6 * k) \<le> n" by (rule order_trans)
    with loop have "\<not> (5 + 6 * k + 2) dvd n" by (rule loop_facts)
    with m(1) show False by (simp add: eq)
  qed
qed


lemma prime_loop_holds:
  assumes nd: "\<And>d. 2 \<le> d \<Longrightarrow> d < n \<Longrightarrow> \<not> d dvd n"
  shows "isPrime_loop n 5"
proof -
  have "\<not> (5 + 6 * k) dvd n \<and> \<not> (5 + 6 * k + 2) dvd n"
    if sq: "(5 + 6 * k) * (5 + 6 * k) \<le> n" for k
  proof -
    define d where "d = 5 + 6 * k"
    have d5: "5 \<le> d" by (simp add: d_def)
    then have "5 * d \<le> d * d" by (rule mult_le_mono1)
    moreover have "d * d \<le> n" using sq by (simp add: d_def)
    ultimately have "5 * d \<le> n" by (rule order_trans)
    with d5 have lt: "d + 2 < n" by linarith
    from d5 lt have "\<not> d dvd n" by (intro nd) simp_all
    moreover from d5 lt have "\<not> (d + 2) dvd n" by (intro nd) simp_all
    ultimately show ?thesis by (simp add: d_def)
  qed
  then show ?thesis unfolding isPrime_loop_iff by blast
qed

lemma isPrime_iff: "isPrime n \<longleftrightarrow> prime_nat n"
proof (cases "n \<le> 3")
  case True
  then consider "n = 0" | "n = 1" | "n = 2" | "n = 3" by linarith
  then show ?thesis
  proof cases
    case 4
    have "{2..<3::nat} = {2}" by auto
    with 4 show ?thesis by (simp add: isPrime_def prime_nat_def)
  qed (simp_all add: isPrime_def prime_nat_def)
next
  case big: False
  then have n4: "4 \<le> n" by simp
  have unfold: "isPrime n \<longleftrightarrow> \<not> 2 dvd n \<and> \<not> 3 dvd n \<and> isPrime_loop n 5"
    using big by (simp add: isPrime_def dvd_eq_mod_eq_0)
  show ?thesis
  proof
    assume "isPrime n"
    with unfold have n2: "\<not> 2 dvd n" and n3: "\<not> 3 dvd n" and loop: "isPrime_loop n 5"
      by blast+
    have "\<not> d dvd n" if "d \<in> {2..<n}" for d
    proof
      assume "d dvd n"
      moreover from that have "2 \<le> d" "d < n" by simp_all
      ultimately show False using no_factor [OF n2 n3 loop] by blast
    qed
    with n4 show "prime_nat n" by (simp add: prime_nat_def)
  next
    assume "prime_nat n"
    then have nd: "\<And>d. 2 \<le> d \<Longrightarrow> d < n \<Longrightarrow> \<not> d dvd n" by (simp add: prime_nat_def)
    from nd [of 2] n4 have "\<not> 2 dvd n" by simp
    moreover from nd [of 3] n4 have "\<not> 3 dvd n" by simp
    moreover from nd have "isPrime_loop n 5" by (rule prime_loop_holds)
    ultimately show "isPrime n" using unfold by blast
  qed
qed

subsection \<open>The timed loop\<close>

lemma cpuLoop_result:
  "cpuLoop budget st clock num iters pc = Some (num', iters', pc', rest) \<Longrightarrow>
   \<exists>k. num' = num + k \<and> iters' = iters + k \<and>
       pc' = pc + length (filter isPrime [num..<num + k])"
proof (induction budget st clock num iters pc rule: cpuLoop.induct)
  case (1 budget startTime num iters primeCount)
  then show ?case by simp
next
  case (2 budget startTime t num iters primeCount)
  then have "num' = num + 0 \<and> iters' = iters + 0 \<and>
      pc' = primeCount + length (filter isPrime [num..<num + 0])"
    by (simp split: if_splits)
  then show ?case by (rule exI)
next
  case (3 budget startTime t now clock num iters primeCount)
  show ?case
  proof (cases "t - startTime < budget")
    case False
    with "3.prems" have "num' = num + 0 \<and> iters' = iters + 0 \<and>
      pc' = primeCount + length (filter isPrime [num..<num + 0])"
      by simp
    then show ?thesis by (rule exI)
  next
    case True
    with "3.prems" have "cpuLoop budget startTime clock (num + 1) (iters + 1)
          (if isPrime num then primeCount + 1 else primeCount) = Some (num', iters', pc', rest)"
      by simp
    with "3.IH" [OF True] obtain k where k: "num' = num + 1 + k" "iters' = iters + 1 + k"
      "pc' = (if isPrime num then primeCount + 1 else primeCount) +
         length (filter isPrime [num + 1..<num + 1 + k])"
      by blast
    have "[num..<num + Suc k] = num # [num + 1..<num + 1 + k]"
      by (simp add: upt_conv_Cons)
    with k have "num' = num + Suc k \<and> iters' = iters + Suc k \<and>
      pc' = primeCount + length (filter isPrime [num..<num + Suc k])"
      by simp
    then show ?thesis by (rule exI)
  qed
qed

lemma count_primes:
  "length (filter isPrime [2..<2 + k]) = card {p. 2 \<le> p \<and> p \<le> k + 1 \<and> prime_nat p}"
proof -
  have "{p. 2 \<le> p \<and> p \<le> k + 1 \<and> prime_nat p} = {p \<in> set [2..<2 + k]. isPrime p}"
    by (auto simp: isPrime_iff)
  also have "card \<dots> = length (filter isPrime [2..<2 + k])"
    using distinct_card [of "filter isPrime [2..<2 + k]"] by simp
  finally show ?thesis by simp
qed

lemma cpuLoop_runs:
  "0 < budget \<Longrightarrow>
   cpuLoop budget st (replicate (2 * k) st @ [st + budget, e]) num iters pc =
     Some (num + k, iters + k, pc + length (filter isPrime [num..<num + k]), [e])"
proof (induction k arbitrary: num iters pc)
  case 0
  then show ?case by simp
next
  case (Suc k)
  have "[num..<num + Suc k] = num # [num + 1..<num + 1 + k]"
    by (simp add: upt_conv_Cons)
  with Suc show ?case by simp
qed

lemma cpuTest_result:
  assumes "cpuTest budget clock = Some r"
  shows "\<exists>N rest. cpuLoop budget (hd clock) (tl clock) 2 0 0 =
            Some (N + 1, iterations r, primesFound r, rest) \<and>
          iterations r = N - 1 \<and> 1 \<le> N \<and>
          primesFound r = card {p. 2 \<le> p \<and> p \<le> N \<and> prime_nat p}"
proof -
  from assms obtain startTime clock1 where clock: "clock = startTime # clock1"
    by (cases clock) (simp_all add: cpuTest_def)
  with assms obtain num iters pc rest where
    loop: "cpuLoop budget startTime clock1 2 0 0 = Some (num, iters, pc, rest)"
    and r: "iterations r = iters" "primesFound r = pc"
    by (auto simp: cpuTest_def split: option.splits list.splits)
  from cpuLoop_result [OF loop] obtain k where
    k: "num = 2 + k" "iters = k" "pc = length (filter isPrime [2..<2 + k])"
    by auto
  have "cpuLoop budget (hd clock) (tl clock) 2 0 0 =
      Some (Suc k + 1, iterations r, primesFound r, rest)"
    using loop clock k r by simp
  moreover have "iterations r = Suc k - 1" using r k by simp
  moreover have "primesFound r = card {p. 2 \<le> p \<and> p \<le> Suc k \<and> prime_nat p}"
    using r k count_primes [of k] by simp
  ultimately show ?thesis by (intro exI [of _ "Suc k"] exI [of _ rest]) simp
qed

lemma cpuTest_runs:
  assumes "0 < budget"
  shows "\<exists>r. cpuTest budget (st # replicate (2 * k) st @ [st + budget, e]) = Some r \<and>
           iterations r = k"
  using cpuLoop_runs [OF assms, of st k e 2 0 0] by (simp add: cpuTest_def)

text \<open>
  Claim C7. The inner function \<open>isPrime\<close> of the CPU phase returns true exactly for the
  primes. When the loop of \<open>cpuTest\<close> stops, having tested the integers \<open>2, \<dots>, N\<close> (its
  counter \<open>num\<close> stands at \<open>N + 1\<close>), the reported \<open>iterations\<close> is \<open>N - 1\<close> and the
  reported \<open>primesFound\<close> is the number of primes in \<open>[2, N]\<close>. So two runs with the same
  number of iterations report the same prime count, whatever their budgets and clocks.
  And the loop does stop: on a clock that stays put for \<open>k\<close> iterations and then passes
  the budget, the run returns with \<open>iterations = k\<close>.
\<close>

theorem cpu_phase_counts_primes:
  "(isPrime n \<longleftrightarrow> prime_nat n) \<and>
   (\<forall>r. cpuTest budget clock = Some r \<longrightarrow>
      (\<exists>N rest. cpuLoop budget (hd clock) (tl clock) 2 0 0 =
           Some (N + 1, iterations r, primesFound r, rest) \<and>
         iterations r = N - 1 \<and> 1 \<le> N \<and>
         primesFound r = card {p. 2 \<le> p \<and> p \<le> N \<and> prime_nat p})) \<and>
   (\<forall>r budget' clock' r'.
      cpuTest budget clock = Some r \<and> cpuTest budget' clock' = Some r' \<and>
      iterations r = iterations r' \<longrightarrow> primesFound r = primesFound r') \<and>
   (0 < budget \<longrightarrow>
      (\<exists>r. cpuTest budget (st # replicate (2 * k) st @ [st + budget, e]) = Some r \<and>
         iterations r = k))"
proof (intro conjI allI impI)
  show "isPrime n \<longleftrightarrow> prime_nat n" by (rule isPrime_iff)
next
  fix r
  assume "cpuTest budget clock = Some r"
  then show "\<exists>N rest. cpuLoop budget (hd clock) (tl clock) 2 0 0 =
           Some (N + 1, iterations r, primesFound r, rest) \<and>
         iterations r = N - 1 \<and> 1 \<le> N \<and>
         primesFound r = card {p. 2 \<le> p \<and> p \<le> N \<and> prime_nat p}"
    by (rule cpuTest_result)
next
  fix r budget' clock' r'
  assume a: "cpuTest budget clock = Some r \<and> cpuTest budget' clock' = Some r' \<and>
      iterations r = iterations r'"
  from a cpuTest_result [of budget clock r] obtain N where
    N: "iterations r = N - 1" "1 \<le> N"
       "primesFound r = card {p. 2 \<le> p \<and> p \<le> N \<and> prime_nat p}"
    by blast
  from a cpuTest_result [of budget' clock' r'] obtain N' where
    N': "iterations r' = N' - 1" "1 \<le> N'"
       "primesFound r' = card {p. 2 \<le> p \<and> p \<le> N' \<and> prime_nat p}"
    by blast
  from a N N' have "N = N'" by linarith
  with N N' show "primesFound r = primesFound r'" by simp
next
  assume "0 < budget"
  then show "\<exists>r. cpuTest budget (st # replicate (2 * k) st @ [st + budget, e]) = Some r \<and>
         iterations r = k"
    by (rule cpuTest_runs)
qed

theorem cpu_phase_counts_primes_witness:
  "isPrime 7 \<and> prime_nat 7 \<and>
   cpuTest 1000 [0, 0, 0, 400, 400, 800, 800, 1200, 1200] =
     Some \<lparr>iterations = 3, primesFound = 2, durationMs = 1200\<rparr> \<and>
   card {p. 2 \<le> p \<and> p \<le> 4 \<and> prime_nat p} = 2 \<and>
   (\<exists>r. cpuTest 1000 (0 # replicate (2 * 5) 0 @ [0 + 1000, 1001]) = Some r \<and> iterations r = 5)"
proof -
  let ?clock = "[0, 0, 0, 400, 400, 800, 800, 1200, 1200] :: int list"
  let ?r = "\<lparr>iterations = 3, primesFound = 2, durationMs = 1200\<rparr>"
  have run: "cpuTest 1000 ?clock = Some ?r" by code_simp
  have p7: "isPrime 7" by code_simp
  note inst = cpu_phase_counts_primes [of 7 1000 ?clock 0 5 1001]
  from inst p7 have "prime_nat 7" by blast
  moreover from inst run obtain N where "iterations ?r = N - 1" "1 \<le> N"
    "primesFound ?r = card {p. 2 \<le> p \<and> p \<le> N \<and> prime_nat p}" by blast
  then have "card {p. 2 \<le> p \<and> p \<le> 4 \<and> prime_nat p} = 2"
    by (cases "N = 4") auto
  moreover from inst have
    "\<exists>r. cpuTest 1000 (0 # replicate (2 * 5) 0 @ [0 + 1000, 1001]) = Some r \<and> iterations r = 5"
    by simp
  ultimately show ?thesis using run p7 by blast
qed

subsection \<open>The memory checksum\<close>

lemma ulp_below: "n < 9007199254740992 \<Longrightarrow> ulp n = 1"
  by (subst ulp.simps) simp

lemma ulp_53: "9007199254740992 \<le> n \<Longrightarrow> n < 18014398509481984 \<Longrightarrow> ulp n = 2"
  by (subst ulp.simps) (simp add: ulp_below)

lemma ulp_54: "18014398509481984 \<le> n \<Longrightarrow> n < 36028797018963968 \<Longrightarrow> ulp n = 4"
  by (subst ulp.simps) (simp add: ulp_53)

lemma ulp_pos: "0 < ulp n"
  by (induction n rule: ulp.induct) (subst ulp.simps, simp)

lemma toDouble_exact: "ulp n dvd n \<Longrightarrow> toDouble n = n"
  using ulp_pos [of n] by (auto simp: toDouble_def Let_def)

lemma toDouble_even:
  assumes "even n" "n < 18014398509481984"
  shows "toDouble n = n"
proof (cases "n < 9007199254740992")
  case True
  then show ?thesis by (simp add: toDouble_exact ulp_below)
next
  case False
  with assms(2) have "ulp n = 2" by (simp add: ulp_53)
  with assms(1) show ?thesis by (simp add: toDouble_exact)
qed

lemma partial_sum_exact:
  assumes "k \<le> 134217729"
  shows "toDouble (k * (k - 1)) = k * (k - 1)"
proof (cases "k = 134217729")
  case True
  have "ulp 18014398643699712 = 4" by (rule ulp_54) simp_all
  then have "toDouble 18014398643699712 = 18014398643699712"
    by (intro toDouble_exact) simp
  with True show ?thesis by simp
next
  case False
  with assms have a: "k \<le> 134217728" and b: "k - 1 \<le> 134217727" by simp_all
  from a b have "k * (k - 1) \<le> 134217728 * 134217727" by (rule mult_le_mono)
  then have lt: "k * (k - 1) < 18014398509481984" by simp
  have "even (k * (k - 1))" by (cases k) simp_all
  from this lt show ?thesis by (rule toDouble_even)
qed

lemma writeLoop_eq:
  "length array = arraySize \<Longrightarrow> i \<le> arraySize \<Longrightarrow>
   writeLoop arraySize i array = take i array @ map (\<lambda>j. Some (j * 2)) [i..<arraySize]"
proof (induction arraySize i array rule: writeLoop.induct)
  case (1 arraySize i array)
  show ?case
  proof (cases "i < arraySize")
    case False
    with "1.prems" show ?thesis by (subst writeLoop.simps) simp
  next
    case True
    let ?a = "js_set array i (i * 2)"
    from True "1.prems" have a: "?a = array[i := Some (i * 2)]" by (simp add: js_set_def)
    with "1.prems" have len: "length ?a = arraySize" by simp
    from True have "writeLoop arraySize i array = writeLoop arraySize (i + 1) ?a"
      by (subst writeLoop.simps) simp
    also have "\<dots> = take (i + 1) ?a @ map (\<lambda>j. Some (j * 2)) [i + 1..<arraySize]"
      using "1.IH" [OF True len] True by simp
    also have "take (i + 1) ?a = take i array @ [Some (i * 2)]"
      using True "1.prems" by (simp add: a take_Suc_conv_app_nth)
    finally show ?thesis using True by (simp add: upt_conv_Cons)
  qed
qed

lemma written:
  "writeLoop n 0 (replicate n None) = map (\<lambda>j. Some (j * 2)) [0..<n]"
  using writeLoop_eq [of "replicate n None" n 0] by simp

lemma readLoop_foldl:
  "readLoop arraySize i array sum_acc =
     foldl jsAdd sum_acc (map (js_get array) [i..<arraySize])"
proof (induction arraySize i array sum_acc rule: readLoop.induct)
  case (1 arraySize i array sum_acc)
  show ?case
  proof (cases "i < arraySize")
    case False
    then show ?thesis by (subst readLoop.simps) simp
  next
    case True
    then have "readLoop arraySize i array sum_acc =
        readLoop arraySize (i + 1) array (jsAdd sum_acc (js_get array i))"
      by (subst readLoop.simps) simp
    also have "\<dots> = foldl jsAdd (jsAdd sum_acc (js_get array i))
        (map (js_get array) [i + 1..<arraySize])"
      using "1.IH" [OF True] .
    finally show ?thesis using True by (simp add: upt_conv_Cons)
  qed
qed

lemma read_written:
  "readLoop n 0 (map (\<lambda>j. Some (j * 2)) [0..<n]) (Some 0) =
     foldl jsAdd (Some 0) (map (\<lambda>j. Some (j * 2)) [0..<n])"
proof -
  have "map (js_get (map (\<lambda>j. Some (j * 2)) [0..<n])) [0..<n] = map (\<lambda>j. Some (j * 2)) [0..<n]"
    by (simp add: js_get_def)
  then show ?thesis by (simp only: readLoop_foldl)
qed

lemma accumulate_step:
  "foldl jsAdd (Some 0) (map (\<lambda>j. Some (j * 2)) [0..<Suc n]) =
     jsAdd (foldl jsAdd (Some 0) (map (\<lambda>j. Some (j * 2)) [0..<n])) (Some (n * 2))"
  by simp

lemma accumulate_exact:
  "n \<le> 134217729 \<Longrightarrow>
   foldl jsAdd (Some 0) (map (\<lambda>j. Some (j * 2)) [0..<n]) = Some (n * (n - 1))"
proof (induction n)
  case 0
  show ?case by simp
next
  case (Suc n)
  then have ih: "foldl jsAdd (Some 0) (map (\<lambda>j. Some (j * 2)) [0..<n]) = Some (n * (n - 1))"
    by simp
  have e: "n * (n - 1) + n * 2 = Suc n * (Suc n - 1)"
    by (cases n) (simp_all add: algebra_simps)
  have t: "toDouble (Suc n * (Suc n - 1)) = Suc n * (Suc n - 1)"
    using Suc.prems by (rule partial_sum_exact)
  have "jsAdd (Some (n * (n - 1))) (Some (n * 2)) = Some (toDouble (n * (n - 1) + n * 2))"
    by (simp only: jsAdd.simps)
  also have "\<dots> = Some (Suc n * (Suc n - 1))" by (simp only: e t)
  finally show ?case unfolding accumulate_step ih .
qed

lemma sum_double: "(\<Sum>i = 0..<n. 2 * i) = n * (n - 1)" for n :: nat
proof (induction n)
  case 0
  show ?case by simp
next
  case (Suc n)
  then show ?case by (cases n) (simp_all add: algebra_simps)
qed

lemma memoryTest_eq:
  assumes "sizeMB * 1024 * 1024 / 8 = of_nat n" and "n \<le> 4294967295"
  shows "memoryTest sizeMB =
     Inr \<lparr>allocatedMB = sizeMB,
          checksum = map_option (\<lambda>s. s mod 1000000)
            (foldl jsAdd (Some 0) (map (\<lambda>j. Some (j * 2)) [0..<n]))\<rparr>"
proof -
  from assms(2) have "(of_nat n :: rat) \<le> of_nat 4294967295" by (simp only: of_nat_le_iff)
  then have "isArrayLength (of_nat n)" by (simp add: isArrayLength_def)
  then show ?thesis
    unfolding memoryTest_def assms(1) by (simp add: Let_def written read_written)
qed

lemma accumulate_rounds:
  "foldl jsAdd (Some 0) (map (\<lambda>j. Some (j * 2)) [0..<134217730]) = Some 18014398912135168"
proof -
  have u: "ulp 18014398912135170 = 4" by (rule ulp_54) simp_all
  have r: "toDouble 18014398912135170 = 18014398912135168"
    by (simp add: toDouble_def u Let_def)
  have ex: "foldl jsAdd (Some 0) (map (\<lambda>j. Some (j * 2)) [0..<134217729]) =
      Some (134217729 * (134217729 - 1))"
    by (rule accumulate_exact) simp
  have s: "Suc 134217729 = 134217730" by simp
  have "foldl jsAdd (Some 0) (map (\<lambda>j. Some (j * 2)) [0..<Suc 134217729]) =
      jsAdd (foldl jsAdd (Some 0) (map (\<lambda>j. Some (j * 2)) [0..<134217729]))
        (Some (134217729 * 2))"
    by (rule accumulate_step)
  also have "\<dots> = jsAdd (Some (134217729 * (134217729 - 1))) (Some (134217729 * 2))"
    by (simp only: ex)
  also have "\<dots> = Some (toDouble 18014398912135170)" by simp
  also have "\<dots> = Some 18014398912135168" by (simp only: r)
  finally show ?thesis unfolding s .
qed

text \<open>
  Claim C8, amended. For every \<open>memorySizeMB\<close> whose buffer length
  \<open>N = memorySizeMB * 1024 * 1024 / 8\<close> is a whole number with \<open>0 \<le> N \<le> 2^27 + 1\<close> (every
  whole number of megabytes from 0 to 1024, the default of 100 MB among them), and as
  far as the engine has the memory for the buffer: the
  write pass stores \<open>2 * i\<close> at every index \<open>i < N\<close>, the read pass accumulates exactly
  these values, and the reported checksum is \<open>(\<Sum>i<N. 2 * i) mod 1000000\<close>, that is
  \<open>N * (N - 1) mod 1000000\<close>: it is determined by the configuration. In this range every
  partial sum \<open>k * (k - 1)\<close> is a double: it is even and at most \<open>2^54\<close>, or it is
  \<open>2^54 + 2^27\<close>, a multiple of 4.
\<close>

theorem memory_checksum:
  assumes "sizeMB * 1024 * 1024 / 8 = of_nat N" and "N \<le> 134217729"
  shows "writeLoop N 0 (replicate N None) = map (\<lambda>i. Some (2 * i)) [0..<N] \<and>
         readLoop N 0 (map (\<lambda>i. Some (2 * i)) [0..<N]) (Some 0) =
           Some (\<Sum>i = 0..<N. 2 * i) \<and>
         memoryTest sizeMB =
           Inr \<lparr>allocatedMB = sizeMB,
                checksum = Some ((\<Sum>i = 0..<N. 2 * i) mod 1000000)\<rparr> \<and>
         (\<Sum>i = 0..<N. 2 * i) = N * (N - 1)"
proof -
  have c: "(\<lambda>i. Some (2 * i)) = (\<lambda>j :: nat. Some (j * 2))" by (simp add: mult.commute)
  have s: "(\<Sum>i = 0..<N. 2 * i) = N * (N - 1)" by (rule sum_double)
  have a: "foldl jsAdd (Some 0) (map (\<lambda>j. Some (j * 2)) [0..<N]) = Some (N * (N - 1))"
    using assms(2) by (rule accumulate_exact)
  have w: "writeLoop N 0 (replicate N None) = map (\<lambda>i. Some (2 * i)) [0..<N]"
    unfolding c by (rule written)
  have r: "readLoop N 0 (map (\<lambda>i. Some (2 * i)) [0..<N]) (Some 0) = Some (\<Sum>i = 0..<N. 2 * i)"
    unfolding c s read_written by (rule a)
  from assms(2) have "N \<le> 4294967295" by simp
  with assms(1) have m: "memoryTest sizeMB =
      Inr \<lparr>allocatedMB = sizeMB, checksum = Some ((\<Sum>i = 0..<N. 2 * i) mod 1000000)\<rparr>"
    unfolding s by (simp add: memoryTest_eq a)
  from w r m s show ?thesis by blast
qed

theorem memory_checksum_witness:
  "(100::rat) * 1024 * 1024 / 8 = of_nat 13107200 \<and> (13107200::nat) \<le> 134217729 \<and>
   memoryTest 100 = Inr \<lparr>allocatedMB = 100, checksum = Some 732800\<rparr>"
proof -
  have a: "(100::rat) * 1024 * 1024 / 8 = of_nat 13107200" by simp
  have b: "(13107200::nat) \<le> 134217729" by simp
  from memory_checksum [OF a b] have
    "memoryTest 100 =
       Inr \<lparr>allocatedMB = 100, checksum = Some ((13107200 * (13107200 - 1)) mod 1000000)\<rparr>"
    by simp
  then have "memoryTest 100 = Inr \<lparr>allocatedMB = 100, checksum = Some 732800\<rparr>" by simp
  with a b show ?thesis by blast
qed

text \<open>
  The claim as stated speaks of every \<open>memorySizeMB\<close>. At
  \<open>memorySizeMB = 67108865 / 65536 = 1024.0000152587890625\<close> the buffer has \<open>N = 2^27 + 2\<close>
  elements; the last addition, \<open>(2^54 + 2^27) + (2^28 + 2)\<close>, falls halfway between two
  doubles and is rounded down, and the checksum is 135168 where the formula gives 135170.
  At 32768 MB the buffer would have \<open>2^32\<close> elements, at \<open>-1\<close> MB a negative number of
  them and at 0.3 MB a fractional one: \<^verbatim>\<open>new Array\<close> throws, and the phase reports no
  checksum at all.
\<close>

theorem memory_checksum_counterexample:
  "memoryTest (67108865 / 65536) =
     Inr \<lparr>allocatedMB = 67108865 / 65536, checksum = Some 135168\<rparr> \<and>
   (134217730 * (134217730 - 1)) mod 1000000 = (135170::nat) \<and>
   memoryTest 32768 = Inl (RangeError ''Invalid array length'') \<and>
   memoryTest (- 1) = Inl (RangeError ''Invalid array length'') \<and>
   memoryTest (3 / 10) = Inl (RangeError ''Invalid array length'')"
proof -
  have "(67108865 / 65536 :: rat) * 1024 * 1024 / 8 = of_nat 134217730" by simp
  then have "memoryTest (67108865 / 65536) =
     Inr \<lparr>allocatedMB = 67108865 / 65536,
          checksum = map_option (\<lambda>s. s mod 1000000)
            (foldl jsAdd (Some 0) (map (\<lambda>j. Some (j * 2)) [0..<134217730]))\<rparr>"
    by (rule memoryTest_eq) simp
  then have a: "memoryTest (67108865 / 65536) =
     Inr \<lparr>allocatedMB = 67108865 / 65536, checksum = Some 135168\<rparr>"
    unfolding accumulate_rounds by simp
  have b: "(134217730 * (134217730 - 1)) mod 1000000 = (135170::nat)" by simp
  have c: "memoryTest 32768 = Inl (RangeError ''Invalid array length'')"
    by (simp add: memoryTest_def isArrayLength_def)
  have d: "memoryTest (- 1) = Inl (RangeError ''Invalid array length'')"
    by (simp add: memoryTest_def isArrayLength_def)
  have "\<lfloor>196608 / 5 :: rat\<rfloor> = 39321" by (rule floor_unique) simp_all
  then have "\<not> isArrayLength (196608 / 5)" by (simp add: isArrayLength_def)
  then have e: "memoryTest (3 / 10) = Inl (RangeError ''Invalid array length'')"
    by (simp add: memoryTest_def)
  from a b c d e show ?thesis by blast
qed


section \<open>Properties of the proof cycle\<close>

subsection \<open>Files, artifacts and the contract call\<close>

lemma writeFile_ok:
  "fs dirPath = Some dir \<Longrightarrow> map_of dir name \<noteq> Some Directory \<Longrightarrow>
   writeFile fs dirPath name content =
     Inr (fs(dirPath \<mapsto> AList.update name (RegularFile content) dir))"
  by (auto simp: writeFile_def split: option.splits entry.splits)

lemma createArtifactFolder_eq:
  "createArtifactFolder pf fs taskId r logs =
     Inr (artifactPathOf taskId, fs(artifactPathOf taskId \<mapsto> artifactFiles pf r logs))"
  by (simp add: createArtifactFolder_def Let_def writeFile_ok artifactFiles_def)

lemma upload_url: "uploadToGreenfield cfg lookup fs folderPath taskId = mockUrlOf taskId"
  by (simp add: uploadToGreenfield_def mockUrlOf_def artifactUrlOf_def split: sum.splits)

lemma readFile_result:
  "readFile (fs(p \<mapsto> artifactFiles pf r logs)) p (codeUnits ''result.json'') =
     Inr (toUtf8Bytes (resultJson pf r))"
  by (simp add: readFile_def artifactFiles_def)

lemma processArtifacts_eq:
  "processArtifacts K pf cfg fs taskId r logs now =
     Inr ((artifactPathOf taskId, mockUrlOf taskId,
           hexDigest (artifactHash_spec K (artifactFiles pf r logs)),
           hexDigest (K (toUtf8Bytes (resultJson pf r)))),
          fs(artifactPathOf taskId \<mapsto>
               artifactFiles pf r logs @
               [(codeUnits ''receipt.json'',
                 RegularFile (toUtf8Bytes
                   (receiptJson pf taskId
                      (hexDigest (artifactHash_spec K (artifactFiles pf r logs)))
                      (hexDigest (K (toUtf8Bytes (resultJson pf r))))
                      (mockUrlOf taskId) now)))]))"
proof -
  let ?p = "artifactPathOf taskId"
  let ?fs1 = "fs(?p \<mapsto> artifactFiles pf r logs)"
  have h: "hashArtifactFolder K ?fs1 ?p = Inr (hexDigest (artifactHash_spec K (artifactFiles pf r logs)))"
    by (rule hashArtifactFolder_eq) simp
  have w: "createReceipt pf ?fs1 taskId a b u now =
      Inr (?fs1(?p \<mapsto> artifactFiles pf r logs @
        [(codeUnits ''receipt.json'', RegularFile (toUtf8Bytes (receiptJson pf taskId a b u now)))]))"
    for a b u
    by (simp add: createReceipt_def Let_def writeFile_ok artifactFiles_def)
  show ?thesis
    by (simp add: processArtifacts_def createArtifactFolder_eq upload_url h readFile_result
        keccak256_Buffer w Let_def)
qed



lemma toUint256_Inr: "toUint256 n = Inr tid \<Longrightarrow> tid = word_of_int n \<and> 0 \<le> n \<and> n \<le> 9007199254740991"
  by (simp add: toUint256_def split: if_splits)







lemma executeTaskRoute_any_storage:
  "executeTaskRoute K pf cfg e world parsed benchmark logs now =
   executeTaskRoute K pf cfg' e world parsed benchmark logs now"
  by (simp add: executeTaskRoute_def processArtifacts_eq
      split: prod.splits option.splits sum.splits)

lemma executeTaskRoute_ledger:
  "parsed = Some t \<Longrightarrow> 0 \<le> t \<Longrightarrow> benchmark = Inr r \<Longrightarrow>
   snd (snd (executeTaskRoute K pf cfg e (fs, ledger) parsed benchmark logs now)) =
     (case submitReceiptOnChain e ledger t
             (hexDigest (artifactHash_spec K (artifactFiles pf r logs)))
             (hexDigest (K (toUtf8Bytes (resultJson pf r)))) of
        Inl err \<Rightarrow> ledger
      | Inr (txh, ledger') \<Rightarrow> ledger')"
  by (simp add: executeTaskRoute_def processArtifacts_eq split: sum.splits)




















subsection \<open>The result hash on the ledger\<close>




subsection \<open>Storage failures\<close>

text \<open>
  Claim C9. A failing upload, or a storage that is not configured, does not abort the
  proof cycle: \<open>uploadToGreenfield\<close> then returns the fallback URL, a fixed string that
  depends on the task id only; \<open>processArtifacts\<close> still succeeds and returns the
  artifact hash and the result hash computed from the local files, the same values as
  with any other storage configuration, one whose upload succeeds included; and the
  execute route does the same as in the success case, going on to submit the receipt
  with exactly those hashes.
\<close>

theorem upload_failure_does_not_abort:
  "(uploadFails cfg lookup fs0 folderPath taskId \<longrightarrow>
      uploadToGreenfield cfg lookup fs0 folderPath taskId = mockUrlOf taskId) \<and>
   (\<exists>fs'. processArtifacts K pf cfg fs taskId r logs now =
      Inr ((artifactPathOf taskId, mockUrlOf taskId,
            hexDigest (artifactHash_spec K (artifactFiles pf r logs)),
            hexDigest (K (toUtf8Bytes (resultJson pf r)))), fs')) \<and>
   processArtifacts K pf cfg fs taskId r logs now =
     processArtifacts K pf cfg' fs taskId r logs now \<and>
   executeTaskRoute K pf cfg e (fs, ledger) parsed benchmark logs now =
     executeTaskRoute K pf cfg' e (fs, ledger) parsed benchmark logs now \<and>
   (parsed = Some t \<and> 0 \<le> t \<and> benchmark = Inr r \<longrightarrow>
      snd (snd (executeTaskRoute K pf cfg e (fs, ledger) parsed benchmark logs now)) =
        (case submitReceiptOnChain e ledger t
                (hexDigest (artifactHash_spec K (artifactFiles pf r logs)))
                (hexDigest (K (toUtf8Bytes (resultJson pf r)))) of
           Inl err \<Rightarrow> ledger
         | Inr (txh, ledger') \<Rightarrow> ledger'))"
proof (intro conjI impI)
  show "uploadToGreenfield cfg lookup fs0 folderPath taskId = mockUrlOf taskId"
    by (rule upload_url)
  show "\<exists>fs'. processArtifacts K pf cfg fs taskId r logs now =
      Inr ((artifactPathOf taskId, mockUrlOf taskId,
            hexDigest (artifactHash_spec K (artifactFiles pf r logs)),
            hexDigest (K (toUtf8Bytes (resultJson pf r)))), fs')"
    by (simp add: processArtifacts_eq)
  show "processArtifacts K pf cfg fs taskId r logs now =
     processArtifacts K pf cfg' fs taskId r logs now"
    by (simp add: processArtifacts_eq)
  show "executeTaskRoute K pf cfg e (fs, ledger) parsed benchmark logs now =
     executeTaskRoute K pf cfg' e (fs, ledger) parsed benchmark logs now"
    by (rule executeTaskRoute_any_storage)
  show "snd (snd (executeTaskRoute K pf cfg e (fs, ledger) parsed benchmark logs now)) =
        (case submitReceiptOnChain e ledger t
                (hexDigest (artifactHash_spec K (artifactFiles pf r logs)))
                (hexDigest (K (toUtf8Bytes (resultJson pf r)))) of
           Inl err \<Rightarrow> ledger
         | Inr (txh, ledger') \<Rightarrow> ledger')"
    if "parsed = Some t \<and> 0 \<le> t \<and> benchmark = Inr r"
    using that by (intro executeTaskRoute_ledger) simp_all
qed

theorem upload_failure_does_not_abort_witness:
  "uploadFails rejecting (\<lambda>n. None) exampleFs ''artifacts/task-0'' 0 \<and>
   uploadFails unconfigured (\<lambda>n. None) exampleFs ''artifacts/task-0'' 0 \<and>
   \<not> uploadFails accepting (\<lambda>n. None) exampleFs ''artifacts/task-0'' 0 \<and>
   uploadToGreenfield rejecting (\<lambda>n. None) exampleFs ''artifacts/task-0'' 0 = mockUrlOf 0 \<and>
   executeTaskRoute toyHash examplePlatform rejecting bob
       (exampleFs, run [CreateTask alice 5] genesis) (Some 0) (Inr 42) [''started''] ''t'' =
     executeTaskRoute toyHash examplePlatform accepting bob
       (exampleFs, run [CreateTask alice 5] genesis) (Some 0) (Inr 42) [''started''] ''t''"
proof -
  have f1: "uploadFails rejecting (\<lambda>n. None) exampleFs ''artifacts/task-0'' 0"
    by (simp add: uploadFails_def uploadAll_def rejecting_def exampleFs_def exampleFolder_def
        readdir_def uploadFileToGreenfield_def falsy_def)
  have f2: "uploadFails unconfigured (\<lambda>n. None) exampleFs ''artifacts/task-0'' 0"
    by (simp add: uploadFails_def unconfigured_def falsy_def)
  have f3: "\<not> uploadFails accepting (\<lambda>n. None) exampleFs ''artifacts/task-0'' 0"
    by (simp add: uploadFails_def uploadAll_def accepting_def exampleFs_def exampleFolder_def
        readdir_def uploadFileToGreenfield_def falsy_def)
  note inst = upload_failure_does_not_abort
    [of rejecting "\<lambda>n. None" exampleFs "''artifacts/task-0''" 0 toyHash examplePlatform exampleFs
        42 "[''started'']" "''t''" accepting bob "run [CreateTask alice 5] genesis" "Some 0"
        "Inr 42" 0]
  from inst f1 have u: "uploadToGreenfield rejecting (\<lambda>n. None) exampleFs ''artifacts/task-0'' 0 =
      mockUrlOf 0"
    by blast
  from inst have "executeTaskRoute toyHash examplePlatform rejecting bob
       (exampleFs, run [CreateTask alice 5] genesis) (Some 0) (Inr 42) [''started''] ''t'' =
     executeTaskRoute toyHash examplePlatform accepting bob
       (exampleFs, run [CreateTask alice 5] genesis) (Some 0) (Inr 42) [''started''] ''t''"
    by blast
  with f1 f2 f3 u show ?thesis by blast
qed

section \<open>Properties of the task status\<close>

lemma getTaskRoute_200:
  "getTaskRoute s parsed = Status200 (TaskReport n task st rc) \<Longrightarrow>
   parsed = Some n \<and> 0 \<le> n \<and> n \<le> 9007199254740991 \<and>
   task = getTask s (word_of_int n) \<and> requester task \<noteq> 0 \<and>
   rc = getReceipt s (word_of_int n) \<and>
   st = (if rc \<noteq> None then COMPLETED else PENDING)"
  by (auto simp: getTaskRoute_def Let_def split: option.splits if_splits sum.splits
      dest!: toUint256_Inr)

lemma getTaskRoute_exists:
  "0 \<le> n \<Longrightarrow> n \<le> 9007199254740991 \<Longrightarrow> requester (tasks s (word_of_int n)) \<noteq> 0 \<Longrightarrow>
   getTaskRoute s (Some n) =
     Status200 (TaskReport n (getTask s (word_of_int n))
       (if getReceipt s (word_of_int n) \<noteq> None then COMPLETED else PENDING)
       (getReceipt s (word_of_int n)))"
  by (simp add: getTaskRoute_def Let_def toUint256_def getTask_def)

lemma getReceipt_None_iff: "getReceipt s t = None \<longleftrightarrow> operator (receipts s t) = 0"
  by (simp add: getReceipt_def Let_def)

text \<open>
  Claim C10. In the state reached by any history of transactions whose senders are not
  the zero address (as on the EVM), \<open>getReceipt\<close> of the backend returns \<open>null\<close> exactly
  when no receipt has been submitted for the task id: every stored receipt has a
  non-zero operator, so the zero operator is a sound sentinel. Consequently the status
  that \<^verbatim>\<open>GET /tasks/:taskId\<close> reports is \<open>PENDING\<close> if and only if no receipt has been
  submitted and \<open>COMPLETED\<close> if and only if one has; and the route does report a status
  for every created task whose id is in the range of safe integers.
\<close>

theorem getReceipt_null_iff_no_receipt:
  assumes callers: "\<forall>c\<in>set cs. caller c \<noteq> 0"
  shows
   "(getReceipt (run cs genesis) t = None \<longleftrightarrow> \<not> receipt_submitted cs genesis t) \<and>
    (receipt_submitted cs genesis t \<longrightarrow> operator (receipts (run cs genesis) t) \<noteq> 0) \<and>
    (\<forall>parsed n task st rc.
       getTaskRoute (run cs genesis) parsed = Status200 (TaskReport n task st rc) \<longrightarrow>
       (st = PENDING \<longleftrightarrow> \<not> receipt_submitted cs genesis (word_of_int n)) \<and>
       (st = COMPLETED \<longleftrightarrow> receipt_submitted cs genesis (word_of_int n)) \<and>
       (rc = None \<longleftrightarrow> \<not> receipt_submitted cs genesis (word_of_int n))) \<and>
    (\<forall>n. 0 \<le> n \<and> n \<le> 9007199254740991 \<and> word_of_int n \<in> set (created_ids cs genesis) \<longrightarrow>
       (\<exists>task st rc.
          getTaskRoute (run cs genesis) (Some n) = Status200 (TaskReport n task st rc)))"
proof (intro conjI allI impI)
  let ?s = "run cs genesis"
  have rcpt: "operator (receipts ?s u) \<noteq> 0 \<longleftrightarrow> receipt_submitted cs genesis u" for u
    by (rule receipt_iff_submitted [OF callers])
  show "getReceipt ?s t = None \<longleftrightarrow> \<not> receipt_submitted cs genesis t"
    using rcpt [of t] by (auto simp: getReceipt_None_iff)
  show "operator (receipts ?s t) \<noteq> 0" if "receipt_submitted cs genesis t"
    using that rcpt [of t] by blast
  fix parsed n task st rc
  assume "getTaskRoute ?s parsed = Status200 (TaskReport n task st rc)"
  from getTaskRoute_200 [OF this]
  have rc: "rc = getReceipt ?s (word_of_int n)"
    and st: "st = (if rc \<noteq> None then COMPLETED else PENDING)"
    by blast+
  from rc rcpt [of "word_of_int n"]
  have none: "rc = None \<longleftrightarrow> \<not> receipt_submitted cs genesis (word_of_int n)"
    by (auto simp: getReceipt_None_iff)
  from st none show "st = PENDING \<longleftrightarrow> \<not> receipt_submitted cs genesis (word_of_int n)"
    by simp
  from st none show "st = COMPLETED \<longleftrightarrow> receipt_submitted cs genesis (word_of_int n)"
    by simp
  from none show "rc = None \<longleftrightarrow> \<not> receipt_submitted cs genesis (word_of_int n)" .
next
  fix n :: int
  assume h: "0 \<le> n \<and> n \<le> 9007199254740991 \<and> word_of_int n \<in> set (created_ids cs genesis)"
  then have "requester (tasks (run cs genesis) (word_of_int n)) \<noteq> 0"
    by (simp add: task_iff_created [OF callers])
  with h show "\<exists>task st rc.
      getTaskRoute (run cs genesis) (Some n) = Status200 (TaskReport n task st rc)"
    by (simp add: getTaskRoute_exists)
qed

theorem getReceipt_null_iff_no_receipt_witness:
  "caller (CreateTask alice 5) \<noteq> 0 \<and> caller (SubmitReceipt bob 0 11 12) \<noteq> 0 \<and>
   getReceipt (run [CreateTask alice 5] genesis) 0 = None \<and>
   (\<exists>task. getTaskRoute (run [CreateTask alice 5] genesis) (Some 0) =
      Status200 (TaskReport 0 task PENDING None)) \<and>
   receipt_submitted [CreateTask alice 5, SubmitReceipt bob 0 11 12] genesis 0 \<and>
   operator (receipts (run [CreateTask alice 5, SubmitReceipt bob 0 11 12] genesis) 0) \<noteq> 0 \<and>
   (\<exists>task rc. getTaskRoute (run [CreateTask alice 5, SubmitReceipt bob 0 11 12] genesis) (Some 0) =
      Status200 (TaskReport 0 task COMPLETED (Some rc)))"
proof -
  let ?c1 = "[CreateTask alice 5]"
  let ?c2 = "[CreateTask alice 5, SubmitReceipt bob 0 11 12]"
  have w1: "\<forall>c\<in>set ?c1. caller c \<noteq> 0" and w2: "\<forall>c\<in>set ?c2. caller c \<noteq> 0"
    by (simp_all add: alice_def bob_def)
  have ids1: "created_ids ?c1 genesis = [0]" and ids2: "created_ids ?c2 genesis = [0]"
    by (simp_all add: createTask_def genesis_def Let_def exec.simps submitReceipt_def)
  have no: "\<not> receipt_submitted ?c1 genesis 0"
    by (simp add: exec.simps)
  have yes: "receipt_submitted ?c2 genesis 0"
    by (simp add: exec.simps createTask_def submitReceipt_def genesis_def Let_def alice_def)
  note t1 = getReceipt_null_iff_no_receipt [OF w1, of 0]
  note t2 = getReceipt_null_iff_no_receipt [OF w2, of 0]
  from t1 no have a: "getReceipt (run ?c1 genesis) 0 = None" by blast
  from t1 [THEN conjunct2, THEN conjunct2, THEN conjunct2, rule_format, of 0] ids1
  obtain task st rc where r1:
    "getTaskRoute (run ?c1 genesis) (Some 0) = Status200 (TaskReport 0 task st rc)"
    by auto
  from t1 [THEN conjunct2, THEN conjunct2, THEN conjunct1, rule_format, OF r1] no
  have "st = PENDING" "rc = None" by simp_all
  with r1 have b: "\<exists>task. getTaskRoute (run ?c1 genesis) (Some 0) =
      Status200 (TaskReport 0 task PENDING None)" by blast
  from t2 yes have c: "operator (receipts (run ?c2 genesis) 0) \<noteq> 0" by blast
  from t2 [THEN conjunct2, THEN conjunct2, THEN conjunct2, rule_format, of 0] ids2
  obtain task' st' rc' where r2:
    "getTaskRoute (run ?c2 genesis) (Some 0) = Status200 (TaskReport 0 task' st' rc')"
    by auto
  from t2 [THEN conjunct2, THEN conjunct2, THEN conjunct1, rule_format, OF r2] yes
  have "st' = COMPLETED" "rc' \<noteq> None" by simp_all
  with r2 have d: "\<exists>task rc. getTaskRoute (run ?c2 genesis) (Some 0) =
      Status200 (TaskReport 0 task COMPLETED (Some rc))" by auto
  from a b c d yes show ?thesis by (simp add: alice_def bob_def)
qed


end
